theory Spec2Isabelle
  imports Main
begin

section \<open>The operating system as seen by shell.py\<close>

text \<open>
  The script touches the outside world through a handful of calls: \<^verbatim>\<open>os.listdir\<close>,
  \<^verbatim>\<open>os.path.isfile\<close>, \<^verbatim>\<open>os.path.exists\<close>, \<^verbatim>\<open>os.path.join\<close>, \<^verbatim>\<open>os.mkdir\<close>,
  \<^verbatim>\<open>open(..., "w")\<close>, \<^verbatim>\<open>subprocess.run\<close> and the template engine. Every call names its
  object by a path string, so the file system is a partial map from path strings to what
  the operating system finds there. A symbolic link to a directory is followed by all of
  these calls; in the map it is simply a path at which a directory is found. Two path
  strings that name the same object (through links or a relative spelling) are two keys.
  A path the kernel does not resolve (too many links on the way, no permission) holds the
  error every call on it reports. Sockets, pipes and devices, and the limits of the
  interpreter (stack depth, memory) are not part of the model.
\<close>

datatype os_error =
    TypeError
  | FileNotFoundError
  | NotADirectoryError
  | IsADirectoryError
  | FileExistsError
  | TemplateNotFound
  | TemplateError
  | TooManyLinks         \<comment> \<open>\<^verbatim>\<open>OSError\<close> with \<^verbatim>\<open>ELOOP\<close>\<close>
  | SystemExit int       \<comment> \<open>\<^verbatim>\<open>sys.exit(status)\<close>\<close>

datatype node =
    File string          \<comment> \<open>a regular file and its contents\<close>
  | Dir "string list"    \<comment> \<open>a directory and the names \<^verbatim>\<open>os.listdir\<close> reports, in its order\<close>
  | Refused os_error     \<comment> \<open>the kernel does not resolve the path and reports this error\<close>

type_synonym filesystem = "string \<Rightarrow> node option"

definition isfile :: "filesystem \<Rightarrow> string \<Rightarrow> bool" where
  "isfile disk p = (case disk p of Some (File c) \<Rightarrow> True | _ \<Rightarrow> False)"

definition isdir :: "filesystem \<Rightarrow> string \<Rightarrow> bool" where
  "isdir disk p = (case disk p of Some (Dir names) \<Rightarrow> True | _ \<Rightarrow> False)"

text \<open>\<^verbatim>\<open>os.path.exists\<close> and \<^verbatim>\<open>os.path.isfile\<close> answer \<^verbatim>\<open>False\<close> where \<^verbatim>\<open>os.stat\<close> fails.\<close>

definition exists :: "filesystem \<Rightarrow> string \<Rightarrow> bool" where
  "exists disk p =
     (case disk p of Some (File c) \<Rightarrow> True | Some (Dir names) \<Rightarrow> True | _ \<Rightarrow> False)"

definition listdir :: "filesystem \<Rightarrow> string \<Rightarrow> os_error + string list" where
  "listdir disk p =
     (case disk p of
        None \<Rightarrow> Inl FileNotFoundError
      | Some (Dir names) \<Rightarrow> Inr names
      | Some (File c) \<Rightarrow> Inl NotADirectoryError
      | Some (Refused err) \<Rightarrow> Inl err)"

text \<open>\<^verbatim>\<open>os.path.join(a, b)\<close> of \<^verbatim>\<open>posixpath\<close>, for two arguments.\<close>

definition path_join :: "string \<Rightarrow> string \<Rightarrow> string" where
  "path_join a b =
     (if b \<noteq> [] \<and> hd b = CHR ''/'' then b
      else if a = [] \<or> last a = CHR ''/'' then a @ b
      else a @ ''/'' @ b)"

text \<open>
  \<^verbatim>\<open>os.path.split\<close> of \<^verbatim>\<open>posixpath\<close>: the kernel creates a new entry in the directory
  named by the head, under the name given by the tail.
\<close>

definition path_split :: "string \<Rightarrow> string \<times> string" where
  "path_split p =
     (let tail = rev (takeWhile (\<lambda>c. c \<noteq> CHR ''/'') (rev p));
          head = rev (dropWhile (\<lambda>c. c \<noteq> CHR ''/'') (rev p))
      in (if head \<noteq> [] \<and> \<not> list_all (\<lambda>c. c = CHR ''/'') head
          then rev (dropWhile (\<lambda>c. c = CHR ''/'') (rev head))
          else head,
          tail))"

text \<open>
  \<^verbatim>\<open>open(path, "w")\<close> followed by one \<^verbatim>\<open>write\<close>: an existing regular file is truncated and
  rewritten; a missing one is created in its parent directory, which must exist.
\<close>

definition open_w :: "filesystem \<Rightarrow> string \<Rightarrow> string \<Rightarrow> os_error + filesystem" where
  "open_w disk path text =
     (case disk path of
        Some (Dir names) \<Rightarrow> Inl IsADirectoryError
      | Some (File old) \<Rightarrow> Inr (disk(path \<mapsto> File text))
      | Some (Refused err) \<Rightarrow> Inl err
      | None \<Rightarrow>
          (case path_split path of
             (parent, name) \<Rightarrow>
               (case disk parent of
                  None \<Rightarrow> Inl FileNotFoundError
                | Some (Dir names) \<Rightarrow>
                    Inr (disk(parent \<mapsto> Dir (names @ [name]), path \<mapsto> File text))
                | Some (File c) \<Rightarrow> Inl NotADirectoryError
                | Some (Refused err) \<Rightarrow> Inl err)))"

definition mkdir :: "filesystem \<Rightarrow> string \<Rightarrow> os_error + filesystem" where
  "mkdir disk path =
     (case disk path of
        Some (Refused err) \<Rightarrow> Inl err
      | Some n \<Rightarrow> Inl FileExistsError
      | None \<Rightarrow>
          (case path_split path of
             (parent, name) \<Rightarrow>
               (case disk parent of
                  None \<Rightarrow> Inl FileNotFoundError
                | Some (Dir names) \<Rightarrow>
                    Inr (disk(parent \<mapsto> Dir (names @ [name]), path \<mapsto> Dir []))
                | Some (File c) \<Rightarrow> Inl NotADirectoryError
                | Some (Refused err) \<Rightarrow> Inl err)))"

text \<open>
  The state of a run: the disk, the remote service (which body a URL yields, if any),
  whether a \<^verbatim>\<open>curl\<close> executable is on the search path, the commands spawned so far and
  the lines printed.
\<close>

record world =
  disk :: filesystem
  network :: "string \<Rightarrow> string option"
  curl_installed :: bool
  spawned :: "string list list"
  stdout :: "string list"

text \<open>
  Modelled from the spec: the bulk fetch capability \<^verbatim>\<open>fetch(url) -> bytes\<close>, which is the
  external \<^verbatim>\<open>curl -sL URL --output PATH\<close>. A body that arrives is written to the output
  path; the exit status is 0 on success, 7 when nothing could be fetched and 23 when the
  body could not be written.
\<close>

definition curl :: "string \<Rightarrow> string \<Rightarrow> world \<Rightarrow> int \<times> world" where
  "curl url out w =
     (case network w url of
        None \<Rightarrow> (7, w)
      | Some body \<Rightarrow>
          (case open_w (disk w) out body of
             Inl e \<Rightarrow> (23, w)
           | Inr d \<Rightarrow> (0, w\<lparr>disk := d\<rparr>)))"

text \<open>
  \<^verbatim>\<open>subprocess.run(argv)\<close> without \<^verbatim>\<open>check=True\<close>: it raises only when the executable
  cannot be started; otherwise it returns the exit status, whatever it is.
\<close>

definition subprocess_run :: "string list \<Rightarrow> world \<Rightarrow> os_error + (int \<times> world)" where
  "subprocess_run argv w =
     (if \<not> curl_installed w then Inl FileNotFoundError
      else
        (let w' = w\<lparr>spawned := spawned w @ [argv]\<rparr>
         in case argv of
              [prog, flags, url, opt, out] \<Rightarrow> Inr (curl url out w')
            | _ \<Rightarrow> Inr (2, w')))"

text \<open>The pure library functions the script calls, taken as they are found.\<close>

datatype picture =
    Path string                       \<comment> \<open>a plain \<^verbatim>\<open>str\<close>\<close>
  | Record "(string \<times> string) list"   \<comment> \<open>a \<^verbatim>\<open>dict\<close> from \<^verbatim>\<open>str\<close> to \<^verbatim>\<open>str\<close>\<close>

type_synonym template_data = "(string \<times> picture list) list"

record env =
  abspath :: "string \<Rightarrow> string"
  render :: "string \<Rightarrow> template_data \<Rightarrow> os_error + string"

section \<open>Python built-ins\<close>

text \<open>\<^verbatim>\<open>str(i)\<close> for a non-negative integer: its decimal digits.\<close>

fun py_str :: "nat \<Rightarrow> string" where
  "py_str n =
     (if n < 10 then [''0123456789'' ! n]
      else py_str (n div 10) @ [''0123456789'' ! (n mod 10)])"

declare py_str.simps [simp del]

definition startswith :: "string \<Rightarrow> string \<Rightarrow> bool" where
  "startswith s p = (take (length p) s = p)"

text \<open>
  \<^verbatim>\<open>s.replace(old, new)\<close>: scanning from the left, each occurrence of \<^verbatim>\<open>old\<close> found is
  replaced and the scan resumes behind it. With an empty \<^verbatim>\<open>old\<close>, \<^verbatim>\<open>new\<close> is put before
  every character and at the end.
\<close>

function replace :: "string \<Rightarrow> string \<Rightarrow> string \<Rightarrow> string" where
  "replace [] old new = (if old = [] then new else [])"
| "replace (c # cs) old new =
     (if old = [] then new @ c # replace cs old new
      else if startswith (c # cs) old then new @ replace (drop (length old) (c # cs)) old new
      else c # replace cs old new)"
  by pat_completeness auto
termination
  by (relation "measure (\<lambda>(s, old, new). length s)") auto

text \<open>
  \<^verbatim>\<open>int(s)\<close> for a string: white space around the literal is dropped, a sign may lead,
  and the digits may be grouped by single underscores. \<open>None\<close> stands for \<^verbatim>\<open>ValueError\<close>.
  Only ASCII digits and white space are modelled.
\<close>

definition isdigit :: "char \<Rightarrow> bool" where
  "isdigit c \<longleftrightarrow> c \<in> set ''0123456789''"

definition isspace :: "char \<Rightarrow> bool" where
  "isspace c \<longleftrightarrow>
     c \<in> set [CHR 0x09, CHR 0x0A, CHR 0x0B, CHR 0x0C, CHR 0x0D,
              CHR 0x1C, CHR 0x1D, CHR 0x1E, CHR 0x1F, CHR '' '']"

definition strip :: "string \<Rightarrow> string" where
  "strip s = rev (dropWhile isspace (rev (dropWhile isspace s)))"

fun digits_ok :: "bool \<Rightarrow> string \<Rightarrow> bool" where
  "digits_ok after_digit [] = after_digit"
| "digits_ok after_digit (c # cs) =
     (if isdigit c then digits_ok True cs
      else if c = CHR ''_'' \<and> after_digit then digits_ok False cs
      else False)"

definition digit_value :: "char \<Rightarrow> nat" where
  "digit_value c = of_char c - of_char CHR ''0''"

definition decimal :: "string \<Rightarrow> nat" where
  "decimal s = foldl (\<lambda>n c. 10 * n + digit_value c) 0 (filter isdigit s)"

definition py_int :: "string \<Rightarrow> int option" where
  "py_int s =
     (let t = strip s;
          negative = (t \<noteq> [] \<and> hd t = CHR ''-'');
          body = (if t \<noteq> [] \<and> (hd t = CHR ''-'' \<or> hd t = CHR ''+'') then tl t else t)
      in if digits_ok False body
         then Some (if negative then - int (decimal body) else int (decimal body))
         else None)"

section \<open>The argument parser\<close>

text \<open>
  \<^verbatim>\<open>ArgumentParser.parse_args\<close> of \<^verbatim>\<open>argparse\<close> (CPython 3.11) for the parser that lines 37
  to 40 build: the help option that every parser has and the three options of the
  script, none of them required, no positional argument. The result is the namespace, or
  the exit that \<^verbatim>\<open>parser.error\<close> (status 2) and the help action (status 0) perform.
\<close>

record args =
  arg_media_dir :: "string option"   \<comment> \<open>\<^verbatim>\<open>None\<close> when \<^verbatim>\<open>-media-dir\<close> is not given\<close>
  arg_init_dataset :: int
  arg_prefix :: string

datatype action = Help | Store_media_dir | Store_init_dataset | Store_prefix

text \<open>\<^verbatim>\<open>parser._option_string_actions\<close>, in the order of registration.\<close>

definition option_string_actions :: "(string \<times> action) list" where
  "option_string_actions =
     [(''-h'', Help), (''--help'', Help), (''-media-dir'', Store_media_dir),
      (''-init-dataset'', Store_init_dataset), (''-prefix'', Store_prefix)]"

text \<open>\<^verbatim>\<open>nargs\<close> is \<^verbatim>\<open>None\<close> (one argument) for the storing actions and 0 for help.\<close>

definition takes_argument :: "action \<Rightarrow> bool" where
  "takes_argument action \<longleftrightarrow> action \<noteq> Help"

text \<open>An option tuple: the action if any, the option string, the separator, the explicit argument.\<close>

type_synonym option_tuple = "action option \<times> string \<times> string option \<times> string option"

text \<open>\<^verbatim>\<open>s.partition('=')\<close>.\<close>

definition partition_eq :: "string \<Rightarrow> string \<times> string \<times> string" where
  "partition_eq s =
     (if CHR ''='' \<in> set s
      then (takeWhile (\<lambda>c. c \<noteq> CHR ''='') s, ''='', tl (dropWhile (\<lambda>c. c \<noteq> CHR ''='') s))
      else (s, [], []))"

text \<open>
  \<^verbatim>\<open>parser._negative_number_matcher.match(s)\<close>, the pattern being \<^verbatim>\<open>^-\d+$|^-\d*\.\d+$\<close>:
  the end of the pattern also matches before a final line feed.
\<close>

definition negative_number :: "string \<Rightarrow> bool" where
  "negative_number s =
     (let t = (if s \<noteq> [] \<and> last s = CHR 0x0A then butlast s else s);
          r = tl t;
          frac = dropWhile isdigit r
      in t \<noteq> [] \<and> hd t = CHR ''-'' \<and>
         (r \<noteq> [] \<and> list_all isdigit r \<or>
          frac \<noteq> [] \<and> hd frac = CHR ''.'' \<and> tl frac \<noteq> [] \<and> list_all isdigit (tl frac)))"

text \<open>\<^verbatim>\<open>parser._get_option_tuples\<close>, called on strings of at least two characters.\<close>

definition get_option_tuples :: "string \<Rightarrow> option_tuple list" where
  "get_option_tuples s =
     (if s ! 1 = CHR ''-'' then
        (case partition_eq s of
           (option_prefix, sep, explicit_arg) \<Rightarrow>
             concat (map (\<lambda>(option_string, action).
                       if startswith option_string option_prefix
                       then [(Some action, option_string,
                              if sep = [] then None else Some sep,
                              if sep = [] then None else Some explicit_arg)]
                       else [])
                     option_string_actions))
      else
        concat (map (\<lambda>(option_string, action).
                  if option_string = take 2 s
                  then [(Some action, option_string, Some [], Some (drop 2 s))]
                  else if startswith option_string s
                  then [(Some action, option_string, None, None)]
                  else [])
                option_string_actions))"

text \<open>\<^verbatim>\<open>parser._parse_optional\<close>: \<open>None\<close> for a string that is taken as a positional.\<close>

definition parse_optional :: "string \<Rightarrow> os_error + option_tuple option" where
  "parse_optional s =
     (if s = [] then Inr None
      else if hd s \<noteq> CHR ''-'' then Inr None
      else
        (case map_of option_string_actions s of
           Some action \<Rightarrow> Inr (Some (Some action, s, None, None))
         | None \<Rightarrow>
             if length s = 1 then Inr None
             else
               (case partition_eq s of
                  (option_string, sep, explicit_arg) \<Rightarrow>
                    (case (if sep \<noteq> [] then map_of option_string_actions option_string
                           else None) of
                       Some action \<Rightarrow>
                         Inr (Some (Some action, option_string, Some sep, Some explicit_arg))
                     | None \<Rightarrow>
                         (case get_option_tuples s of
                            [] \<Rightarrow>
                              if negative_number s then Inr None
                              else if CHR '' '' \<in> set s then Inr None
                              else Inr (Some (None, s, None, None))
                          | [option_tuple] \<Rightarrow> Inr (Some option_tuple)
                          | _ \<Rightarrow> Inl (SystemExit 2))))))"

text \<open>
  The first loop of \<^verbatim>\<open>_parse_known_args\<close>: every argument string is classified, and all
  strings behind \<^verbatim>\<open>--\<close> are positionals.
\<close>

datatype pattern = Positional | Optional option_tuple | Dashes

fun arg_strings_pattern :: "string list \<Rightarrow> os_error + pattern list" where
  "arg_strings_pattern [] = Inr []"
| "arg_strings_pattern (arg_string # rest) =
     (if arg_string = ''--'' then Inr (Dashes # map (\<lambda>s. Positional) rest)
      else
        (case parse_optional arg_string of
           Inl err \<Rightarrow> Inl err
         | Inr option_tuple \<Rightarrow>
             (case arg_strings_pattern rest of
                Inl err \<Rightarrow> Inl err
              | Inr patterns \<Rightarrow>
                  Inr ((case option_tuple of None \<Rightarrow> Positional | Some t \<Rightarrow> Optional t)
                       # patterns))))"

text \<open>
  \<^verbatim>\<open>consume_optional\<close> up to the actions it queues: the tuples of action and argument
  strings, the strings it adds to \<^verbatim>\<open>extras\<close>, and how many of the following argument
  strings it takes. A single-dash option without argument that is followed by more
  characters passes them on as a further single-dash option.
\<close>

type_synonym action_tuple = "action \<times> string list"

function consume_optional ::
  "action \<Rightarrow> string \<Rightarrow> string option \<Rightarrow> string option \<Rightarrow> (string \<times> pattern) list \<Rightarrow>
     os_error + (action_tuple list \<times> string list \<times> nat)" where
  "consume_optional action option_string sep None following =
     (if takes_argument action then
        (case following of
           (arg, Positional) # rest \<Rightarrow> Inr ([(action, [arg])], [], 1)
         | _ \<Rightarrow> Inl (SystemExit 2))
      else Inr ([(action, [])], [], 0))"
| "consume_optional action option_string sep (Some explicit_arg) following =
     (if \<not> takes_argument action \<and> option_string ! 1 \<noteq> CHR ''-'' \<and> explicit_arg \<noteq> [] then
        (if (sep \<noteq> None \<and> sep \<noteq> Some []) \<or> hd explicit_arg = CHR ''-'' then Inl (SystemExit 2)
         else
           (case map_of option_string_actions [CHR ''-'', hd explicit_arg] of
              None \<Rightarrow> Inr ([(action, [])], [CHR ''-'' # explicit_arg], 0)
            | Some next_action \<Rightarrow>
                (case (let rest = tl explicit_arg;
                           next_string = [CHR ''-'', hd explicit_arg]
                       in if rest = [] then
                            consume_optional next_action next_string None None following
                          else if hd rest = CHR ''='' then
                            consume_optional next_action next_string (Some ''='')
                              (Some (tl rest)) following
                          else
                            consume_optional next_action next_string (Some [])
                              (Some rest) following) of
                   Inl err \<Rightarrow> Inl err
                 | Inr (action_tuples, extras, consumed) \<Rightarrow>
                     Inr ((action, []) # action_tuples, extras, consumed))))
      else if takes_argument action then Inr ([(action, [explicit_arg])], [], 0)
      else Inl (SystemExit 2))"
  by pat_completeness auto
termination
  by (relation "measure (\<lambda>(action, option_string, sep, explicit_arg, following).
        case explicit_arg of None \<Rightarrow> 0 | Some x \<Rightarrow> Suc (length x))")
     (auto simp: Let_def)

text \<open>
  \<^verbatim>\<open>take_action\<close>: the help action prints the help and exits with status 0; a storing
  action converts its one argument string (\<^verbatim>\<open>type=str\<close> or \<^verbatim>\<open>type=int\<close>) and sets the
  attribute. The last equation is never reached: a storing action is queued with exactly
  one argument string.
\<close>

fun take_action :: "action \<Rightarrow> string list \<Rightarrow> args \<Rightarrow> os_error + args" where
  "take_action Help values namespace = Inl (SystemExit 0)"
| "take_action Store_media_dir [v] namespace = Inr (namespace\<lparr>arg_media_dir := Some v\<rparr>)"
| "take_action Store_init_dataset [v] namespace =
     (case py_int v of
        None \<Rightarrow> Inl (SystemExit 2)
      | Some n \<Rightarrow> Inr (namespace\<lparr>arg_init_dataset := n\<rparr>))"
| "take_action Store_prefix [v] namespace = Inr (namespace\<lparr>arg_prefix := v\<rparr>)"
| "take_action action values namespace = Inr namespace"

fun take_actions :: "action_tuple list \<Rightarrow> args \<Rightarrow> os_error + args" where
  "take_actions [] namespace = Inr namespace"
| "take_actions ((action, values) # rest) namespace =
     (case take_action action values namespace of
        Inl err \<Rightarrow> Inl err
      | Inr namespace' \<Rightarrow> take_actions rest namespace')"

text \<open>
  The main loop of \<^verbatim>\<open>_parse_known_args\<close> over the argument strings and their patterns:
  an option with a known action is consumed with the argument it takes; every other
  string goes to \<^verbatim>\<open>extras\<close>, there being no positional argument to take it.
\<close>

function consume ::
  "(string \<times> pattern) list \<Rightarrow> args \<Rightarrow> string list \<Rightarrow> os_error + (args \<times> string list)" where
  "consume [] namespace extras = Inr (namespace, extras)"
| "consume ((arg_string, p) # following) namespace extras =
     (case p of
        Optional (Some action, option_string, sep, explicit_arg) \<Rightarrow>
          (case consume_optional action option_string sep explicit_arg following of
             Inl err \<Rightarrow> Inl err
           | Inr (action_tuples, skipped, consumed) \<Rightarrow>
               (case take_actions action_tuples namespace of
                  Inl err \<Rightarrow> Inl err
                | Inr namespace' \<Rightarrow>
                    consume (drop consumed following) namespace' (extras @ skipped)))
      | _ \<Rightarrow> consume following namespace (extras @ [arg_string]))"
  by pat_completeness auto
termination
  by (relation "measure (\<lambda>(strings, namespace, extras). length strings)") auto

text \<open>
  \<^verbatim>\<open>parse_args\<close>: the namespace starts from the defaults, and strings left over are an
  error.
\<close>

definition parse_args :: "string list \<Rightarrow> os_error + args" where
  "parse_args argv =
     (case arg_strings_pattern argv of
        Inl err \<Rightarrow> Inl err
      | Inr patterns \<Rightarrow>
          (case consume (zip argv patterns)
                  \<lparr>arg_media_dir = None, arg_init_dataset = 0, arg_prefix = []\<rparr> [] of
             Inl err \<Rightarrow> Inl err
           | Inr (namespace, extras) \<Rightarrow>
               if extras \<noteq> [] then Inl (SystemExit 2) else Inr namespace))"

section \<open>shell.py\<close>

subsection \<open>\<^verbatim>\<open>compile_template\<close>\<close>

definition compile_template ::
  "env \<Rightarrow> string \<Rightarrow> string \<Rightarrow> template_data \<Rightarrow> world \<Rightarrow> os_error + world" where
  "compile_template e src output data w =
     (case disk w (path_join ''.'' src) of
        Some (File template) \<Rightarrow>
          (case render e template data of
             Inl err \<Rightarrow> Inl err
           | Inr outputText \<Rightarrow>
               (case open_w (disk w) output outputText of
                  Inl err \<Rightarrow> Inl err
                | Inr d \<Rightarrow> Inr (w\<lparr>disk := d\<rparr>)))
      | _ \<Rightarrow> Inl TemplateNotFound)"

subsection \<open>\<^verbatim>\<open>download_dataset\<close>\<close>

definition url_of :: "nat \<Rightarrow> string" where
  "url_of i = ''https://picsum.photos/1920/1080/?random='' @ py_str i"

definition jpg_of :: "string \<Rightarrow> nat \<Rightarrow> string" where
  "jpg_of to i = to @ ''/'' @ py_str i @ ''.jpg''"

definition curl_argv :: "string \<Rightarrow> nat \<Rightarrow> string list" where
  "curl_argv to i = [''curl'', ''-sL'', url_of i, ''--output'', jpg_of to i]"

fun download_loop :: "string \<Rightarrow> nat list \<Rightarrow> world \<Rightarrow> os_error + world" where
  "download_loop to [] w = Inr w"
| "download_loop to (i # is) w =
     (case subprocess_run (curl_argv to i) w of
        Inl err \<Rightarrow> Inl err
      | Inr (status, w') \<Rightarrow> download_loop to is w')"

definition download_dataset :: "string \<Rightarrow> int \<Rightarrow> world \<Rightarrow> os_error + world" where
  "download_dataset to count w = download_loop to [0 ..< nat count] w"

subsection \<open>\<^verbatim>\<open>get_paths\<close>\<close>

text \<open>
  The body of the \<^verbatim>\<open>for\<close> loop, with the recursive call as a parameter. The first
  argument of \<open>get_paths\<close> is the number of nested calls still available: \<open>None\<close> says
  that the recursion went deeper than that.
\<close>

fun for_loop ::
  "(string \<Rightarrow> (os_error + string list) option) \<Rightarrow> filesystem \<Rightarrow> string \<Rightarrow>
     string list \<Rightarrow> string list \<Rightarrow> (os_error + string list) option" where
  "for_loop rec d root_dir [] output = Some (Inr output)"
| "for_loop rec d root_dir (file # files) output =
     (let fp = path_join root_dir file
      in if isfile d fp then for_loop rec d root_dir files (output @ [fp])
         else
           (case rec fp of
              None \<Rightarrow> None
            | Some (Inl err) \<Rightarrow> Some (Inl err)
            | Some (Inr sub) \<Rightarrow> for_loop rec d root_dir files (output @ sub)))"

fun get_paths :: "nat \<Rightarrow> filesystem \<Rightarrow> string \<Rightarrow> (os_error + string list) option" where
  "get_paths 0 d root_dir = None"
| "get_paths (Suc depth) d root_dir =
     (case listdir d root_dir of
        Inl err \<Rightarrow> Some (Inl err)
      | Inr files \<Rightarrow> for_loop (get_paths depth d) d root_dir files [])"

subsection \<open>The main block\<close>

text \<open>Lines 43 to 46: the media directory is made absolute and created when missing.\<close>

definition ensure_media_dir :: "string \<Rightarrow> world \<Rightarrow> os_error + world" where
  "ensure_media_dir media_dir w =
     (if \<not> exists (disk w) media_dir then
        (let w' = w\<lparr>stdout := stdout w @ [''Media directory does not exist. Creating...'']\<rparr>
         in case mkdir (disk w') media_dir of
              Inl err \<Rightarrow> Inl err
            | Inr d \<Rightarrow> Inr (w'\<lparr>disk := d\<rparr>))
      else Inr w)"

text \<open>Lines 48 and 49.\<close>

definition seed :: "string \<Rightarrow> int \<Rightarrow> world \<Rightarrow> os_error + world" where
  "seed media_dir init_dataset w =
     (if init_dataset > 0 then download_dataset media_dir init_dataset w else Inr w)"

text \<open>Lines 52 to 56: the list bound to \<^verbatim>\<open>pictures\<close> once the paths are collected.\<close>

definition make_pictures :: "string \<Rightarrow> string \<Rightarrow> string list \<Rightarrow> picture list" where
  "make_pictures media_dir prefix paths =
     (if prefix \<noteq> [] then
        map (\<lambda>picture. Record [(''key'', replace picture (media_dir @ ''/'') prefix)]) paths
      else map Path paths)"

text \<open>Lines 52 to 59: from the collected paths to the written page.\<close>

definition compose_page ::
  "env \<Rightarrow> string \<Rightarrow> string \<Rightarrow> string list \<Rightarrow> world \<Rightarrow> os_error + world" where
  "compose_page e media_dir prefix paths w =
     (let pictures = make_pictures media_dir prefix paths;
          dst = path_join media_dir ''index.html''
      in compile_template e ''template.html'' dst [(''pictures'', pictures)] w)"

text \<open>
  Lines 43 to 59, from the parsed arguments on. \<^verbatim>\<open>os.path.abspath(None)\<close> raises
  \<^verbatim>\<open>TypeError\<close>.
\<close>

definition run :: "nat \<Rightarrow> env \<Rightarrow> args \<Rightarrow> world \<Rightarrow> (os_error + world) option" where
  "run depth e a w =
     (case arg_media_dir a of
        None \<Rightarrow> Some (Inl TypeError)
      | Some given \<Rightarrow>
          (let media_dir = abspath e given
           in case ensure_media_dir media_dir w of
                Inl err \<Rightarrow> Some (Inl err)
              | Inr w1 \<Rightarrow>
                  (case seed media_dir (arg_init_dataset a) w1 of
                     Inl err \<Rightarrow> Some (Inl err)
                   | Inr w2 \<Rightarrow>
                       (case get_paths depth (disk w2) media_dir of
                          None \<Rightarrow> None
                        | Some (Inl err) \<Rightarrow> Some (Inl err)
                        | Some (Inr paths) \<Rightarrow>
                            Some (compose_page e media_dir (arg_prefix a) paths w2)))))"

text \<open>
  Lines 36 to 59: the block under \<^verbatim>\<open>if __name__ == "__main__"\<close>, run on the command line
  arguments \<^verbatim>\<open>sys.argv[1:]\<close>.
\<close>

definition main :: "nat \<Rightarrow> env \<Rightarrow> string list \<Rightarrow> world \<Rightarrow> (os_error + world) option" where
  "main depth e argv w =
     (case parse_args argv of
        Inl err \<Rightarrow> Some (Inl err)
      | Inr a \<Rightarrow> run depth e a w)"

text \<open>
  The exit status of the interpreter: 0 when the script runs to its end, the status
  given to \<^verbatim>\<open>sys.exit\<close>, and 1 after an exception that nothing handles.
\<close>

fun exit_status :: "os_error + world \<Rightarrow> int" where
  "exit_status (Inr w) = 0"
| "exit_status (Inl (SystemExit status)) = status"
| "exit_status (Inl err) = 1"

section \<open>Vocabulary of the properties\<close>

text \<open>\<^verbatim>\<open>old in s\<close>: \<^verbatim>\<open>old\<close> occurs in \<^verbatim>\<open>s\<close> as a contiguous piece.\<close>

primrec contains :: "string \<Rightarrow> string \<Rightarrow> bool" where
  "contains [] old = (old = [])"
| "contains (c # cs) old = (startswith (c # cs) old \<or> contains cs old)"

subsection \<open>Command lines\<close>

text \<open>
  The argument strings that can stand for \<^verbatim>\<open>-media-dir\<close>: the option string or a
  beginning of it, or the option string with the value behind an equals sign.
\<close>

definition names_media_dir :: "string \<Rightarrow> bool" where
  "names_media_dir s \<longleftrightarrow>
     2 \<le> length s \<and> startswith ''-media-dir'' s \<or> startswith s ''-media-dir=''"

text \<open>
  The argument strings that can ask for the help: \<^verbatim>\<open>-h\<close>, possibly with more characters
  behind it, and \<^verbatim>\<open>--help\<close> or a beginning of it longer than the two dashes.
\<close>

definition asks_help :: "string \<Rightarrow> bool" where
  "asks_help s \<longleftrightarrow> startswith s ''-h'' \<or> 3 \<le> length s \<and> startswith ''--help'' s"

subsection \<open>Directory trees\<close>

text \<open>
  The names \<^verbatim>\<open>os.listdir\<close> reports are never empty and never hold a separator.
\<close>

definition valid_name :: "string \<Rightarrow> bool" where
  "valid_name n \<longleftrightarrow> n \<noteq> [] \<and> CHR ''/'' \<notin> set n"

text \<open>
  A finite tree of regular files and directories at a path: a regular file, or a
  directory whose names are pairwise different and lead to such trees.
\<close>

inductive file_tree :: "filesystem \<Rightarrow> string \<Rightarrow> bool" for d where
  leaf: "d p = Some (File c) \<Longrightarrow> file_tree d p"
| branch: "d p = Some (Dir names) \<Longrightarrow> distinct names \<Longrightarrow>
        (\<forall>n \<in> set names. valid_name n \<and> file_tree d (path_join p n)) \<Longrightarrow> file_tree d p"

text \<open>The paths present under a root: the root, and every entry of a directory present.\<close>

inductive_set below :: "filesystem \<Rightarrow> string \<Rightarrow> string set" for d root where
  root: "root \<in> below d root"
| entry: "p \<in> below d root \<Longrightarrow> d p = Some (Dir names) \<Longrightarrow> n \<in> set names \<Longrightarrow>
          path_join p n \<in> below d root"

definition files_below :: "filesystem \<Rightarrow> string \<Rightarrow> string set" where
  "files_below d root = {p \<in> below d root. isfile d p}"


text \<open>
  The directory \<^verbatim>\<open>/m\<close> whose only entry \<^verbatim>\<open>self\<close> is a symbolic link to \<^verbatim>\<open>/m\<close>. The path
  \<^verbatim>\<open>/m\<close> followed by \<open>k\<close> components \<^verbatim>\<open>self\<close> reaches that directory through \<open>k\<close> links, and
  \<open>link_count\<close> is that number. The kernel follows at most 40 links while it resolves a
  path and refuses a longer chain with \<^verbatim>\<open>ELOOP\<close>.
\<close>

function link_count :: "string \<Rightarrow> nat option" where
  "link_count p =
     (if p = ''/m'' then Some 0
      else if 5 < length p \<and> drop (length p - 5) p = ''/self''
      then map_option Suc (link_count (take (length p - 5) p))
      else None)"
  by pat_completeness auto
termination
  by (relation "measure length") auto

declare link_count.simps [simp del]

definition self_link_disk :: filesystem where
  "self_link_disk p =
     (case link_count p of
        None \<Rightarrow> None
      | Some k \<Rightarrow> if k \<le> 40 then Some (Dir [''self'']) else Some (Refused TooManyLinks))"

text \<open>
  A path \<open>q\<close> lies at or under the entry \<open>n\<close> of \<open>p\<close>: it is the joined path, possibly
  followed by further components.
\<close>

definition extends :: "string \<Rightarrow> string \<Rightarrow> string \<Rightarrow> bool" where
  "extends p n q \<longleftrightarrow>
     (\<exists>rest. q = path_join p n @ rest \<and>
             (rest = [] \<or> hd rest = CHR ''/'' \<and> last rest \<noteq> CHR ''/''))"

text \<open>What one round of the loop adds to \<^verbatim>\<open>output\<close> for one directory entry.\<close>

definition entry_paths ::
  "(string \<Rightarrow> (os_error + string list) option) \<Rightarrow> filesystem \<Rightarrow> string \<Rightarrow>
     string \<Rightarrow> string list \<Rightarrow> bool" where
  "entry_paths rec d root_dir file sub =
     (if isfile d (path_join root_dir file) then sub = [path_join root_dir file]
      else rec (path_join root_dir file) = Some (Inr sub))"

definition slashed :: "string \<Rightarrow> string" where
  "slashed p = (if p = [] \<or> last p = CHR ''/'' then p else p @ ''/'')"

text \<open>Every directory on the disk lists names of that kind.\<close>

definition valid_names :: "filesystem \<Rightarrow> bool" where
  "valid_names d \<longleftrightarrow> (\<forall>p names n. d p = Some (Dir names) \<longrightarrow> n \<in> set names \<longrightarrow> valid_name n)"

text \<open>An entry of a directory that exists is among the names the directory lists.\<close>

definition listed :: "filesystem \<Rightarrow> string \<Rightarrow> string \<Rightarrow> bool" where
  "listed d dir name \<longleftrightarrow>
     (\<forall>names. d dir = Some (Dir names) \<longrightarrow> d (path_join dir name) \<noteq> None \<longrightarrow> name \<in> set names)"

subsection \<open>A sample run\<close>

definition example_render :: "string \<Rightarrow> template_data \<Rightarrow> os_error + string" where
  "example_render template data =
     Inr (template @
          concat (map (\<lambda>p. case p of Path s \<Rightarrow> s @ '';'' | Record kv \<Rightarrow> concat (map snd kv) @ '';'')
                      (concat (map snd data))))"

definition example_env :: env where
  "example_env =
     \<lparr>abspath = (\<lambda>p. if startswith p ''/'' then p else ''/srv/'' @ p),
      render = example_render\<rparr>"

definition example_disk :: filesystem where
  "example_disk =
     map_of
       [(''/srv'', Dir [''media'', ''template.html'']),
        (''./template.html'', File ''<h1>Gallery</h1>''),
        (''/srv/media'', Dir [''a.jpg'', ''sub'']),
        (''/srv/media/a.jpg'', File ''A''),
        (''/srv/media/sub'', Dir [''b.jpg'']),
        (''/srv/media/sub/b.jpg'', File ''B'')]"

definition example_world :: world where
  "example_world =
     \<lparr>disk = example_disk,
      network = (\<lambda>url. if url = url_of 1 then None else Some (''image of '' @ url)),
      curl_installed = True,
      spawned = [],
      stdout = []\<rparr>"

definition example_argv :: "string list" where
  "example_argv = [''-media-dir'', ''media'']"

definition example_args :: "string \<Rightarrow> args" where
  "example_args prefix =
     \<lparr>arg_media_dir = Some ''media'', arg_init_dataset = 0, arg_prefix = prefix\<rparr>"

text \<open>The same world with a remote service that always answers.\<close>

definition served_world :: world where
  "served_world = example_world\<lparr>network := (\<lambda>url. Some (''image of '' @ url))\<rparr>"

text \<open>The world the sample run leaves behind.\<close>

definition example_after :: world where
  "example_after =
     example_world\<lparr>disk := example_disk
       (''/srv/media'' \<mapsto> Dir [''a.jpg'', ''sub'', ''index.html''],
        ''/srv/media/index.html'' \<mapsto> File ''<h1>Gallery</h1>/srv/media/a.jpg;/srv/media/sub/b.jpg;'')\<rparr>"

text \<open>The world a second run of the sample leaves behind.\<close>

definition example_second :: world where
  "example_second =
     example_world\<lparr>disk := example_disk
       (''/srv/media'' \<mapsto> Dir [''a.jpg'', ''sub'', ''index.html''],
        ''/srv/media/index.html'' \<mapsto>
          File ''<h1>Gallery</h1>/srv/media/a.jpg;/srv/media/sub/b.jpg;/srv/media/index.html;'')\<rparr>"

section \<open>String replacement\<close>

lemma replace_leading:
  "old \<noteq> [] \<Longrightarrow> replace (old @ rest) old new = new @ replace rest old new"
  by (cases old) (simp_all add: startswith_def)

lemma replace_absent:
  "old \<noteq> [] \<Longrightarrow> \<not> contains s old \<Longrightarrow> replace s old new = s"
  by (induction s) auto

lemma startswith_shorter:
  "startswith (x @ y) old \<Longrightarrow> length old \<le> length x \<Longrightarrow> startswith x old"
  by (auto simp: startswith_def)

text \<open>
  The leftmost occurrence is the one replaced first: when no occurrence starts inside
  \<open>a\<close>, the scan copies \<open>a\<close>, replaces the occurrence behind it and goes on with \<open>b\<close>.
\<close>

lemma replace_leftmost:
  "old \<noteq> [] \<Longrightarrow> \<not> contains (a @ butlast old) old \<Longrightarrow>
   replace (a @ old @ b) old new = a @ new @ replace b old new"
proof (induction a)
  case Nil
  then show ?case by (simp add: replace_leading)
next
  case (Cons c a)
  from Cons.prems have no: "\<not> startswith (c # a @ butlast old) old"
    and rest: "\<not> contains (a @ butlast old) old" by auto
  have "\<not> startswith (c # a @ old @ b) old"
  proof
    assume s: "startswith (c # a @ old @ b) old"
    have "c # a @ old @ b = (c # a @ butlast old) @ (last old # b)"
      using Cons.prems(1) by simp
    with s have "startswith ((c # a @ butlast old) @ (last old # b)) old" by simp
    then have "startswith (c # a @ butlast old) old"
      by (rule startswith_shorter) simp
    with no show False by contradiction
  qed
  with Cons.IH [OF Cons.prems(1) rest] Cons.prems(1) show ?case by simp
qed

text \<open>What \<open>contains\<close> computes.\<close>

lemma contains_iff: "contains s old \<longleftrightarrow> (\<exists>a b. s = a @ old @ b)"
proof (induction s)
  case Nil
  then show ?case by auto
next
  case (Cons c cs)
  show ?case
  proof
    assume "contains (c # cs) old"
    then consider "startswith (c # cs) old" | "contains cs old" by auto
    then show "\<exists>a b. c # cs = a @ old @ b"
    proof cases
      case 1
      then have "c # cs = [] @ old @ drop (length old) (c # cs)"
        by (metis append_Nil append_take_drop_id startswith_def)
      then show ?thesis by blast
    next
      case 2
      with Cons.IH obtain a b where "cs = a @ old @ b" by blast
      then have "c # cs = (c # a) @ old @ b" by simp
      then show ?thesis by blast
    qed
  next
    assume "\<exists>a b. c # cs = a @ old @ b"
    then obtain a b where ab: "c # cs = a @ old @ b" by blast
    show "contains (c # cs) old"
    proof (cases a)
      case Nil
      with ab have "startswith (c # cs) old" by (simp add: startswith_def)
      then show ?thesis by simp
    next
      case (Cons x a')
      with ab have "cs = a' @ old @ b" by simp
      with Cons.IH have "contains cs old" by blast
      then show ?thesis by simp
    qed
  qed
qed

section \<open>The records built from the collected paths\<close>

text \<open>
  C2, as amended. With a non-empty prefix, a collected path that is the media root, a
  separator and a remainder in which the media root with its separator does not occur
  again becomes the record whose key is the prefix followed by that remainder. For the
  media root \<^verbatim>\<open>/a/b\<close> and the prefix \<^verbatim>\<open>X\<close>, the path \<^verbatim>\<open>/a/b/c/d.jpg\<close> becomes
  \<^verbatim>\<open>{key: "Xc/d.jpg"}\<close>.
\<close>

theorem prefix_replaces_leading_segment:
  assumes "prefix \<noteq> []"
    and "i < length paths"
    and "paths ! i = media_dir @ ''/'' @ rest"
    and "\<not> contains rest (media_dir @ ''/'')"
  shows "make_pictures media_dir prefix paths ! i = Record [(''key'', prefix @ rest)]"
proof -
  have "replace (paths ! i) (media_dir @ ''/'') prefix
          = prefix @ replace rest (media_dir @ ''/'') prefix"
    using assms(3) replace_leading [of "media_dir @ ''/''" rest prefix] by simp
  also have "replace rest (media_dir @ ''/'') prefix = rest"
    using assms(4) by (intro replace_absent) simp_all
  finally show ?thesis
    using assms(1,2) by (simp add: make_pictures_def)
qed

theorem prefix_replaces_leading_segment_witness:
  "''X'' \<noteq> [] \<and> (0::nat) < length [''/a/b/c/d.jpg''] \<and>
   [''/a/b/c/d.jpg''] ! 0 = ''/a/b'' @ ''/'' @ ''c/d.jpg'' \<and>
   \<not> contains ''c/d.jpg'' (''/a/b'' @ ''/'') \<and>
   make_pictures ''/a/b'' ''X'' [''/a/b/c/d.jpg''] ! 0 = Record [(''key'', ''Xc/d.jpg'')]"
  using prefix_replaces_leading_segment [of "''X''" 0 "[''/a/b/c/d.jpg'']" "''/a/b''" "''c/d.jpg''"]
  by (simp add: startswith_def)

text \<open>
  The claim as it was written fails where the media root occurs again further down:
  below \<^verbatim>\<open>/a/b\<close>, the file \<^verbatim>\<open>/a/b/c/a/b/d.jpg\<close> does not get the key
  \<^verbatim>\<open>Xc/a/b/d.jpg\<close>.
\<close>

theorem prefix_replaces_leading_segment_counterexample:
  "[''/a/b/c/a/b/d.jpg''] ! 0 = ''/a/b'' @ ''/'' @ ''c/a/b/d.jpg'' \<and>
   make_pictures ''/a/b'' ''X'' [''/a/b/c/a/b/d.jpg''] ! 0
     \<noteq> Record [(''key'', ''X'' @ ''c/a/b/d.jpg'')]"
  by (simp add: make_pictures_def startswith_def)

text \<open>
  C9, as amended. With a non-empty prefix the substitution is not limited to the leading
  occurrence: in a collected path made of the media root with its separator, a piece
  \<open>a\<close>, the media root with its separator again, and a piece \<open>b\<close>, where no occurrence
  starts inside \<open>a\<close>, both occurrences are replaced by the prefix, and \<open>b\<close> is treated
  in the same way. Occurrences are taken from the left without overlap.
\<close>

theorem prefix_replaces_interior_occurrence:
  assumes "prefix \<noteq> []"
    and "i < length paths"
    and "paths ! i = (media_dir @ ''/'') @ a @ (media_dir @ ''/'') @ b"
    and "\<not> contains (a @ butlast (media_dir @ ''/'')) (media_dir @ ''/'')"
  shows "make_pictures media_dir prefix paths ! i
           = Record [(''key'', prefix @ a @ prefix @ replace b (media_dir @ ''/'') prefix)]"
proof -
  let ?old = "media_dir @ ''/''"
  have "replace (paths ! i) ?old prefix = prefix @ replace (a @ ?old @ b) ?old prefix"
    using assms(3) replace_leading [of ?old "a @ ?old @ b" prefix] by simp
  also have "replace (a @ ?old @ b) ?old prefix = a @ prefix @ replace b ?old prefix"
    using assms(4) by (intro replace_leftmost) simp_all
  finally show ?thesis
    using assms(1,2) by (simp add: make_pictures_def)
qed

theorem prefix_replaces_interior_occurrence_witness:
  "''X'' \<noteq> [] \<and> (0::nat) < length [''/a/b/c/a/b/d.jpg''] \<and>
   [''/a/b/c/a/b/d.jpg''] ! 0 = (''/a/b'' @ ''/'') @ ''c'' @ (''/a/b'' @ ''/'') @ ''d.jpg'' \<and>
   \<not> contains (''c'' @ butlast (''/a/b'' @ ''/'')) (''/a/b'' @ ''/'') \<and>
   make_pictures ''/a/b'' ''X'' [''/a/b/c/a/b/d.jpg''] ! 0 = Record [(''key'', ''XcXd.jpg'')]"
  using prefix_replaces_interior_occurrence
          [of "''X''" 0 "[''/a/b/c/a/b/d.jpg'']" "''/a/b''" "''c''" "''d.jpg''"]
  by (simp add: startswith_def)

text \<open>
  The claim as it was written, that every occurrence is replaced, fails for an occurrence
  that overlaps the one replaced before it: below \<^verbatim>\<open>/a\<close>, the path \<^verbatim>\<open>/a/a/x.jpg\<close>
  holds \<^verbatim>\<open>/a/\<close> at its start and again from its third character, and only the first
  is replaced.
\<close>

theorem prefix_replaces_interior_occurrence_counterexample:
  "[''/a/a/x.jpg''] ! 0 = ''/a'' @ (''/a'' @ ''/'') @ ''x.jpg'' \<and>
   make_pictures ''/a'' ''X'' [''/a/a/x.jpg''] ! 0
     \<noteq> Record [(''key'', replace ''/a'' (''/a'' @ ''/'') ''X'' @ ''X'' @
                             replace ''x.jpg'' (''/a'' @ ''/'') ''X'')] \<and>
   make_pictures ''/a'' ''X'' [''/a/a/x.jpg''] ! 0 = Record [(''key'', ''Xa/x.jpg'')]"
  by (simp add: make_pictures_def startswith_def)

section \<open>Collecting the paths\<close>

subsection \<open>Nesting depth\<close>








lemma link_count_end: "link_count p = Some k \<Longrightarrow> p \<noteq> [] \<and> last p \<noteq> CHR ''/''"
proof -
  assume l: "link_count p = Some k"
  show ?thesis
  proof (cases "p = ''/m''")
    case True
    then show ?thesis by simp
  next
    case False
    with l have len: "5 < length p" and d: "drop (length p - 5) p = ''/self''"
      by (auto simp: link_count.simps [of p] split: if_splits)
    have "p = take (length p - 5) p @ ''/self''"
      using d append_take_drop_id [of "length p - 5" p] by simp
    then have "last p = last (take (length p - 5) p @ ''/self'')" by simp
    then have "last p = CHR ''f''" by simp
    with len show ?thesis by auto
  qed
qed

lemma link_count_self: "link_count p = Some k \<Longrightarrow> link_count (p @ ''/self'') = Some (Suc k)"
proof -
  assume l: "link_count p = Some k"
  then have "p \<noteq> []" by (simp add: link_count_end)
  then have "5 < length (p @ ''/self'')" by (cases p) simp_all
  moreover have "p @ ''/self'' \<noteq> ''/m''"
  proof
    assume "p @ ''/self'' = ''/m''"
    then have "length (p @ ''/self'') = length ''/m''" by simp
    then show False by simp
  qed
  ultimately show ?thesis using l by (simp add: link_count.simps [of "p @ ''/self''"])
qed

text \<open>
  From a path that reaches \<^verbatim>\<open>/m\<close> through \<open>j\<close> links the descent goes on through the
  link until the kernel refuses the path, which takes \<open>42 - j\<close> nested calls.
\<close>

lemma self_link_descends:
  "link_count p = Some j \<Longrightarrow> j \<le> 41 \<Longrightarrow>
   get_paths k self_link_disk p = (if j + k < 42 then None else Some (Inl TooManyLinks))"
proof (induction k arbitrary: p j)
  case 0
  then show ?case by simp
next
  case (Suc k)
  show ?case
  proof (cases "j = 41")
    case True
    with Suc.prems have "listdir self_link_disk p = Inl TooManyLinks"
      by (simp add: listdir_def self_link_disk_def)
    with True show ?thesis by simp
  next
    case False
    with Suc.prems have j: "j \<le> 40" by simp
    from link_count_end [OF Suc.prems(1)] have child: "path_join p ''self'' = p @ ''/self''"
      by (simp add: path_join_def)
    from Suc.prems(1) have count: "link_count (p @ ''/self'') = Some (Suc j)"
      by (rule link_count_self)
    from j have "Suc j \<le> 41" by simp
    from Suc.IH [OF count this] child
    have rec: "get_paths k self_link_disk (path_join p ''self'') =
        (if Suc j + k < 42 then None else Some (Inl TooManyLinks))" by simp
    from count child have nf: "\<not> isfile self_link_disk (path_join p ''self'')"
      by (simp add: isfile_def self_link_disk_def)
    have ls: "listdir self_link_disk p = Inr [''self'']"
      using Suc.prems(1) j by (simp add: listdir_def self_link_disk_def)
    from ls nf rec show ?thesis by simp
  qed
qed

lemma self_link_root: "link_count ''/m'' = Some 0"
  by (simp add: link_count.simps)


subsection \<open>The shape of the collected paths\<close>

lemma path_join_valid: "valid_name n \<Longrightarrow> path_join p n = slashed p @ n"
  by (cases n) (auto simp: valid_name_def path_join_def slashed_def)

lemma valid_name_last: "valid_name n \<Longrightarrow> last n \<noteq> CHR ''/''"
  by (metis last_in_set valid_name_def)

lemma path_join_end:
  "valid_name n \<Longrightarrow> path_join p n \<noteq> [] \<and> last (path_join p n) \<noteq> CHR ''/''"
  using valid_name_last [of n] by (simp add: path_join_valid valid_name_def)

lemma extends_self: "extends p n (path_join p n)"
  by (simp add: extends_def)

lemma extends_end:
  assumes "valid_name n" and "extends p n q"
  shows "q \<noteq> [] \<and> last q \<noteq> CHR ''/''"
proof -
  from assms(2) obtain rest where q: "q = path_join p n @ rest"
    and rest: "rest = [] \<or> hd rest = CHR ''/'' \<and> last rest \<noteq> CHR ''/''"
    by (auto simp: extends_def)
  show ?thesis
  proof (cases "rest = []")
    case True
    with path_join_end [OF assms(1), of p] q show ?thesis by simp
  next
    case False
    with q rest show ?thesis by simp
  qed
qed

lemma extends_step:
  assumes "valid_name n" and "valid_name m" and "extends p n q"
  shows "extends p n (path_join q m)"
proof -
  from assms(3) obtain rest where q: "q = path_join p n @ rest"
    and rest: "rest = [] \<or> hd rest = CHR ''/'' \<and> last rest \<noteq> CHR ''/''"
    by (auto simp: extends_def)
  from extends_end [OF assms(1,3)] have "slashed q = q @ ''/''" by (simp add: slashed_def)
  then have "path_join q m = path_join p n @ (rest @ ''/'' @ m)"
    using assms(2) q by (simp add: path_join_valid)
  moreover have "hd (rest @ ''/'' @ m) = CHR ''/''"
    using rest by (cases rest) auto
  moreover have "last (rest @ ''/'' @ m) \<noteq> CHR ''/''"
    using assms(2) valid_name_last [of m] by (simp add: valid_name_def)
  ultimately show ?thesis unfolding extends_def by blast
qed

lemma name_of_extension:
  assumes "CHR ''/'' \<notin> set n" and "rest = [] \<or> hd rest = CHR ''/''"
  shows "takeWhile (\<lambda>c. c \<noteq> CHR ''/'') (n @ rest) = n"
proof (cases rest)
  case Nil
  with assms(1) show ?thesis by auto
next
  case (Cons c cs)
  with assms(2) have "c = CHR ''/''" by simp
  with Cons assms(1) show ?thesis by (simp add: takeWhile_append)
qed

lemma extends_same_name:
  assumes "valid_name n1" and "valid_name n2" and "extends p n1 q" and "extends p n2 q"
  shows "n1 = n2"
proof -
  from assms(3) obtain r1 where q1: "q = path_join p n1 @ r1"
    and r1: "r1 = [] \<or> hd r1 = CHR ''/''" by (auto simp: extends_def)
  from assms(4) obtain r2 where q2: "q = path_join p n2 @ r2"
    and r2: "r2 = [] \<or> hd r2 = CHR ''/''" by (auto simp: extends_def)
  from q1 q2 assms(1,2) have "n1 @ r1 = n2 @ r2" by (simp add: path_join_valid)
  then have "takeWhile (\<lambda>c. c \<noteq> CHR ''/'') (n1 @ r1) = takeWhile (\<lambda>c. c \<noteq> CHR ''/'') (n2 @ r2)"
    by simp
  with assms(1,2) r1 r2 show ?thesis by (simp add: name_of_extension valid_name_def)
qed

subsection \<open>The paths below a root\<close>

lemma file_tree_below: "q \<in> below d p \<Longrightarrow> file_tree d p \<Longrightarrow> file_tree d q"
proof (induction rule: below.induct)
  case root
  then show ?case .
next
  case (entry q names n)
  then have "file_tree d q" by simp
  then show ?case using entry.hyps(2,3) by cases auto
qed

lemma file_tree_names:
  "file_tree d p \<Longrightarrow> d p = Some (Dir names) \<Longrightarrow> n \<in> set names \<Longrightarrow> valid_name n"
  by (erule file_tree.cases) auto

lemma below_shape:
  assumes "q \<in> below d (path_join p n)" and "file_tree d (path_join p n)" and "valid_name n"
  shows "extends p n q"
  using assms(1)
proof (induction rule: below.induct)
  case root
  show ?case by (rule extends_self)
next
  case (entry q names m)
  from entry.hyps(1) assms(2) have "file_tree d q" by (rule file_tree_below)
  then have "valid_name m" using entry.hyps(2,3) by (rule file_tree_names)
  with assms(3) show ?case using entry.IH by (intro extends_step)
qed

lemma below_leaf: "d p = Some (File c) \<Longrightarrow> below d p = {p}"
proof
  assume f: "d p = Some (File c)"
  show "below d p \<subseteq> {p}"
  proof
    fix q assume "q \<in> below d p"
    then show "q \<in> {p}" by induction (use f in auto)
  qed
qed (auto intro: below.root)

lemma below_sub: "q \<in> below d (path_join p n) \<Longrightarrow> d p = Some (Dir names) \<Longrightarrow> n \<in> set names \<Longrightarrow> q \<in> below d p"
  by (induction rule: below.induct) (auto intro: below.intros)

lemma below_branch:
  assumes "d p = Some (Dir names)"
  shows "below d p = insert p (\<Union>n \<in> set names. below d (path_join p n))"
proof
  show "below d p \<subseteq> insert p (\<Union>n \<in> set names. below d (path_join p n))"
  proof
    fix q assume "q \<in> below d p"
    then show "q \<in> insert p (\<Union>n \<in> set names. below d (path_join p n))"
    proof (induction rule: below.induct)
      case root
      then show ?case by simp
    next
      case (entry q ns m)
      from entry.IH show ?case
      proof
        assume "q = p"
        with entry.hyps(2,3) assms have "m \<in> set names" by simp
        moreover have "path_join p m \<in> below d (path_join p m)" by (rule below.root)
        ultimately show ?thesis using \<open>q = p\<close> by blast
      next
        assume "q \<in> (\<Union>n \<in> set names. below d (path_join p n))"
        then obtain n where "n \<in> set names" and "q \<in> below d (path_join p n)" by blast
        then show ?thesis using entry.hyps(2,3) by (blast intro: below.entry)
      qed
    qed
  qed
  show "insert p (\<Union>n \<in> set names. below d (path_join p n)) \<subseteq> below d p"
    using assms by (auto intro: below.root below_sub)
qed

lemma files_below_leaf: "d p = Some (File c) \<Longrightarrow> files_below d p = {p}"
  by (auto simp: files_below_def below_leaf isfile_def)

lemma files_below_branch:
  "d p = Some (Dir names) \<Longrightarrow> files_below d p = (\<Union>n \<in> set names. files_below d (path_join p n))"
  by (auto simp: files_below_def below_branch isfile_def)

subsection \<open>The loop over a directory\<close>

lemma for_loop_collects:
  "list_all2 (entry_paths rec d root) files subs \<Longrightarrow>
   for_loop rec d root files out = Some (Inr (out @ concat subs))"
proof (induction arbitrary: out rule: list_all2_induct)
  case Nil
  then show ?case by simp
next
  case (Cons f files sub subs)
  then show ?case by (simp add: entry_paths_def split: if_splits)
qed

lemma uniform_depth:
  assumes "\<And>n. n \<in> set ns \<Longrightarrow> \<exists>k::nat. \<exists>sub. Q n sub \<and> (\<forall>j. R (k + j) n sub)"
  shows "\<exists>K subs. list_all2 Q ns subs \<and> (\<forall>j. list_all2 (R (K + j)) ns subs)"
  using assms
proof (induction ns)
  case Nil
  then show ?case by simp
next
  case (Cons n ns)
  from Cons.prems [of n] obtain k sub where q: "Q n sub" and r: "\<And>j. R (k + j) n sub"
    by auto
  from Cons.IH Cons.prems obtain K subs where qs: "list_all2 Q ns subs"
    and rs: "\<And>j. list_all2 (R (K + j)) ns subs" by auto
  have "list_all2 (R ((k + K) + j)) (n # ns) (sub # subs)" for j
  proof -
    have e1: "k + K + j = k + (K + j)" and e2: "k + K + j = K + (k + j)" by simp_all
    have "R (k + K + j) n sub" unfolding e1 by (rule r)
    moreover have "list_all2 (R (k + K + j)) ns subs" unfolding e2 by (rule rs)
    ultimately show ?thesis by simp
  qed
  with q qs have "list_all2 Q (n # ns) (sub # subs) \<and>
      (\<forall>j. list_all2 (R ((k + K) + j)) (n # ns) (sub # subs))" by simp
  then show ?case by blast
qed

lemma set_concat_entries:
  "list_all2 (\<lambda>n sub. set sub = F n) ns subs \<Longrightarrow> set (concat subs) = (\<Union>n \<in> set ns. F n)"
  by (induction rule: list_all2_induct) auto

lemma distinct_concat_entries:
  assumes "list_all2 (\<lambda>n sub. distinct sub \<and> (\<forall>q \<in> set sub. extends p n q)) ns subs"
    and "distinct ns" and "\<forall>n \<in> set ns. valid_name n"
  shows "distinct (concat subs) \<and> (\<forall>q \<in> set (concat subs). \<exists>n \<in> set ns. extends p n q)"
  using assms
proof (induction rule: list_all2_induct)
  case Nil
  then show ?case by simp
next
  case (Cons n ns sub subs)
  then have IH: "distinct (concat subs)"
    and sh: "\<forall>q \<in> set (concat subs). \<exists>m \<in> set ns. extends p m q" by auto
  have "set sub \<inter> set (concat subs) = {}"
  proof (rule ccontr)
    assume "set sub \<inter> set (concat subs) \<noteq> {}"
    then obtain q where q1: "q \<in> set sub" and q2: "q \<in> set (concat subs)" by blast
    from q2 sh obtain m where m: "m \<in> set ns" and em: "extends p m q" by blast
    from q1 Cons.hyps(1) have en: "extends p n q" by simp
    from Cons.prems m have "valid_name n" and "valid_name m" by auto
    then have "n = m" using en em by (rule extends_same_name)
    with m Cons.prems(1) show False by simp
  qed
  moreover have "\<forall>q \<in> set (concat (sub # subs)). \<exists>m \<in> set (n # ns). extends p m q"
    using Cons.hyps(1) sh by auto
  ultimately show ?case using Cons.hyps(1) IH by simp
qed

lemma get_paths_file_tree:
  "file_tree d p \<Longrightarrow> isdir d p \<Longrightarrow>
   \<exists>k paths. (\<forall>j. get_paths (k + j) d p = Some (Inr paths)) \<and>
             distinct paths \<and> set paths = files_below d p"
proof (induction rule: file_tree.induct)
  case (leaf p c)
  then show ?case by (simp add: isdir_def)
next
  case (branch p names)
  let ?Q = "\<lambda>n sub. distinct sub \<and> set sub = files_below d (path_join p n)"
  let ?R = "\<lambda>k. entry_paths (get_paths k d) d p"
  have each: "\<exists>k sub. ?Q n sub \<and> (\<forall>j. ?R (k + j) n sub)" if n: "n \<in> set names" for n
  proof (cases "isfile d (path_join p n)")
    case True
    then obtain c where "d (path_join p n) = Some (File c)"
      by (auto simp: isfile_def split: option.splits node.splits)
    then have "?Q n [path_join p n]" by (simp add: files_below_leaf)
    moreover have "?R (0 + j) n [path_join p n]" for j
      using True by (simp add: entry_paths_def)
    ultimately show ?thesis by blast
  next
    case False
    from branch.IH n have ft: "file_tree d (path_join p n)"
      and ih: "isdir d (path_join p n) \<Longrightarrow>
        \<exists>k paths. (\<forall>j. get_paths (k + j) d (path_join p n) = Some (Inr paths)) \<and>
                  distinct paths \<and> set paths = files_below d (path_join p n)"
      by auto
    from ft False have "isdir d (path_join p n)"
      by cases (auto simp: isfile_def isdir_def)
    from ih [OF this] obtain k paths
      where "\<And>j. get_paths (k + j) d (path_join p n) = Some (Inr paths)"
        and "distinct paths" and "set paths = files_below d (path_join p n)" by blast
    with False have "?Q n paths \<and> (\<forall>j. ?R (k + j) n paths)"
      by (simp add: entry_paths_def)
    then show ?thesis by blast
  qed
  from uniform_depth [of names ?Q ?R, OF each] obtain K subs
    where qs: "list_all2 ?Q names subs" and rs: "\<And>j. list_all2 (?R (K + j)) names subs"
    by blast
  have run: "get_paths (Suc K + j) d p = Some (Inr (concat subs))" for j
    using for_loop_collects [OF rs [of j], of "[]"] branch.hyps(1) by (simp add: listdir_def)
  have shape: "list_all2 (\<lambda>n sub. distinct sub \<and> (\<forall>q \<in> set sub. extends p n q)) names subs"
  proof (rule list.rel_mono_strong [OF qs])
    fix n sub assume n: "n \<in> set names" and q: "?Q n sub"
    from branch.IH n have ft: "file_tree d (path_join p n)" and v: "valid_name n" by auto
    have "extends p n q" if "q \<in> set sub" for q
    proof -
      from that q have "q \<in> below d (path_join p n)" by (simp add: files_below_def)
      then show ?thesis using ft v by (rule below_shape)
    qed
    with q show "distinct sub \<and> (\<forall>q \<in> set sub. extends p n q)" by simp
  qed
  have "distinct (concat subs)"
    using distinct_concat_entries [OF shape branch.hyps(2)] branch.IH by simp
  moreover have "set (concat subs) = files_below d p"
  proof -
    have "list_all2 (\<lambda>n sub. set sub = files_below d (path_join p n)) names subs"
      by (rule list_all2_mono [OF qs]) simp
    then have "set (concat subs) = (\<Union>n \<in> set names. files_below d (path_join p n))"
      by (rule set_concat_entries)
    also have "\<dots> = files_below d p"
      using branch.hyps(1) by (rule files_below_branch [symmetric])
    finally show ?thesis .
  qed
  ultimately show ?case using run by blast
qed


section \<open>The sample run\<close>

lemma example_abspath: "abspath example_env ''media'' = ''/srv/media''"
  by (simp add: example_env_def startswith_def)

lemma example_ensure: "ensure_media_dir ''/srv/media'' example_world = Inr example_world"
  by (simp add: ensure_media_dir_def exists_def example_world_def example_disk_def)

lemma example_seed: "seed ''/srv/media'' 0 example_world = Inr example_world"
  by (simp add: seed_def)

lemma example_get_paths:
  "get_paths 2 example_disk ''/srv/media''
     = Some (Inr [''/srv/media/a.jpg'', ''/srv/media/sub/b.jpg''])"
  by (simp add: numeral_2_eq_2 example_disk_def listdir_def isfile_def path_join_def)

lemma example_compile:
  "compile_template example_env ''template.html'' ''/srv/media/index.html'' 
      [(''pictures'', map Path [''/srv/media/a.jpg'', ''/srv/media/sub/b.jpg''])] example_world
   = Inr (example_world\<lparr>disk := example_disk
           (''/srv/media'' \<mapsto> Dir [''a.jpg'', ''sub'', ''index.html''],
            ''/srv/media/index.html'' \<mapsto> File ''<h1>Gallery</h1>/srv/media/a.jpg;/srv/media/sub/b.jpg;'')\<rparr>)"
  by (simp add: compile_template_def example_world_def example_env_def example_render_def
      example_disk_def path_join_def open_w_def path_split_def)


lemma example_media_tree: "file_tree example_disk ''/srv/media''"
proof -
  have a: "file_tree example_disk ''/srv/media/a.jpg''"
    by (rule file_tree.leaf [of _ _ "''A''"]) (simp add: example_disk_def)
  have b: "file_tree example_disk ''/srv/media/sub/b.jpg''"
    by (rule file_tree.leaf [of _ _ "''B''"]) (simp add: example_disk_def)
  have s: "file_tree example_disk ''/srv/media/sub''"
    by (rule file_tree.branch [of _ _ "[''b.jpg'']"])
       (use b in \<open>simp_all add: example_disk_def valid_name_def path_join_def\<close>)
  show ?thesis
    by (rule file_tree.branch [of _ _ "[''a.jpg'', ''sub'']"])
       (use a s in \<open>simp_all add: example_disk_def valid_name_def path_join_def\<close>)
qed

section \<open>The path collector\<close>

lemma example_isdir: "isdir example_disk ''/srv/media''"
  by (simp add: isdir_def example_disk_def)

text \<open>
  C1. On a finite tree of regular files and directories, at any nesting depth,
  \<open>get_paths\<close> on a root directory returns, once enough nested calls are allowed, a
  list without duplicates whose elements are exactly the paths of the regular files
  present under the root.
\<close>

theorem get_paths_collects_files:
  assumes "file_tree d root_dir" and "isdir d root_dir"
  shows "\<exists>depth paths. (\<forall>k \<ge> depth. get_paths k d root_dir = Some (Inr paths)) \<and>
           distinct paths \<and> set paths = files_below d root_dir"
proof -
  from get_paths_file_tree [OF assms] obtain depth paths
    where run: "\<And>j. get_paths (depth + j) d root_dir = Some (Inr paths)"
      and "distinct paths" and "set paths = files_below d root_dir" by blast
  moreover have "get_paths k d root_dir = Some (Inr paths)" if "depth \<le> k" for k
    using run [of "k - depth"] that by simp
  ultimately show ?thesis by blast
qed

theorem get_paths_collects_files_witness:
  "file_tree example_disk ''/srv/media'' \<and> isdir example_disk ''/srv/media'' \<and>
   (\<exists>depth paths. (\<forall>k \<ge> depth. get_paths k example_disk ''/srv/media'' = Some (Inr paths)) \<and>
      distinct paths \<and> set paths = files_below example_disk ''/srv/media'')"
  using get_paths_collects_files [OF example_media_tree example_isdir]
    example_media_tree example_isdir
  by blast



text \<open>
  The self-linked directory is a cyclic directory graph on which \<open>get_paths\<close> does
  terminate: with 42 nested calls it returns the error of the kernel.
\<close>

theorem get_paths_terminates_unless_cyclic_counterexample:
  "get_paths 42 self_link_disk ''/m'' = Some (Inl TooManyLinks)"
  using self_link_descends [OF self_link_root, of 42] by simp

section \<open>Decimal strings and destination paths\<close>

lemma digit_inj:
  "a < 10 \<Longrightarrow> b < 10 \<Longrightarrow> ''0123456789'' ! a = ''0123456789'' ! b \<Longrightarrow> a = b"
proof -
  assume "a < 10" "b < 10" "''0123456789'' ! a = ''0123456789'' ! b"
  moreover have "distinct ''0123456789''" by simp
  ultimately show ?thesis by (simp add: nth_eq_iff_index_eq)
qed

lemma py_str_nonempty: "py_str n \<noteq> []"
  by (subst py_str.simps) simp

lemma py_str_inj: "py_str a = py_str b \<Longrightarrow> a = b"
proof (induction a arbitrary: b rule: py_str.induct)
  case (1 a)
  show ?case
  proof (cases "a < 10")
    case small_a: True
    show ?thesis
    proof (cases "b < 10")
      case True
      with small_a "1.prems" show ?thesis
        by (simp add: py_str.simps [of a] py_str.simps [of b] digit_inj)
    next
      case False
      with small_a "1.prems" py_str_nonempty [of "b div 10"] show ?thesis
        by (simp add: py_str.simps [of a] py_str.simps [of b])
    qed
  next
    case big_a: False
    show ?thesis
    proof (cases "b < 10")
      case True
      with big_a "1.prems" py_str_nonempty [of "a div 10"] show ?thesis
        by (simp add: py_str.simps [of a] py_str.simps [of b])
    next
      case False
      with big_a "1.prems" have q: "py_str (a div 10) = py_str (b div 10)"
        and r: "''0123456789'' ! (a mod 10) = ''0123456789'' ! (b mod 10)"
        by (simp_all add: py_str.simps [of a] py_str.simps [of b])
      from "1.IH" [OF big_a q] have "a div 10 = b div 10" .
      moreover from r have "a mod 10 = b mod 10" by (intro digit_inj) simp_all
      ultimately show ?thesis by (metis div_mult_mod_eq)
    qed
  qed
qed

lemma digit_no_slash: "n < 10 \<Longrightarrow> ''0123456789'' ! n \<noteq> CHR ''/''"
proof -
  assume "n < 10"
  then have "''0123456789'' ! n \<in> set ''0123456789''" by (intro nth_mem) simp
  then show ?thesis by auto
qed

lemma py_str_no_slash: "CHR ''/'' \<notin> set (py_str n)"
proof (induction n rule: py_str.induct)
  case (1 n)
  show ?case
  proof (cases "n < 10")
    case True
    with digit_no_slash [of n] show ?thesis by (auto simp: py_str.simps [of n])
  next
    case False
    with "1.IH" digit_no_slash [of "n mod 10"] show ?thesis
      by (auto simp: py_str.simps [of n])
  qed
qed

lemma url_of_inj: "url_of i = url_of j \<Longrightarrow> i = j"
  by (auto simp: url_of_def dest: py_str_inj)

lemma jpg_of_inj: "jpg_of to i = jpg_of to j \<Longrightarrow> i = j"
  by (auto simp: jpg_of_def dest: py_str_inj)

lemma path_split_entry:
  assumes "to \<noteq> []" and "last to \<noteq> CHR ''/''" and "CHR ''/'' \<notin> set name"
  shows "path_split (to @ ''/'' @ name) = (to, name)"
proof -
  have rv: "rev (to @ ''/'' @ name) = rev name @ CHR ''/'' # rev to" by simp
  have t: "takeWhile (\<lambda>c. c \<noteq> CHR ''/'') (rev name @ CHR ''/'' # rev to) = rev name"
    using assms(3) by (simp add: takeWhile_append)
  have d: "dropWhile (\<lambda>c. c \<noteq> CHR ''/'') (rev name @ CHR ''/'' # rev to) = CHR ''/'' # rev to"
    using assms(3) by (simp add: dropWhile_append)
  have r: "dropWhile (\<lambda>c. c = CHR ''/'') (rev to) = rev to"
  proof -
    from assms(1) obtain ys y where to: "to = ys @ [y]" by (cases to rule: rev_cases) auto
    with assms(2) have "y \<noteq> CHR ''/''" by simp
    then show ?thesis unfolding to by simp
  qed
  have n: "\<not> list_all (\<lambda>c. c = CHR ''/'') (to @ ''/'')"
  proof -
    have "last to \<in> set to" using assms(1) by simp
    with assms(2) have "\<not> (\<forall>c \<in> set to. c = CHR ''/'')" by blast
    then show ?thesis by (simp add: list_all_iff)
  qed
  have h: "rev (CHR ''/'' # rev to) = to @ ''/''" by simp
  have s: "rev (dropWhile (\<lambda>c. c = CHR ''/'') (rev (to @ ''/''))) = to"
    using r by simp
  show ?thesis
    unfolding path_split_def Let_def rv t d h s using n by simp
qed

lemma path_split_jpg:
  "to \<noteq> [] \<Longrightarrow> last to \<noteq> CHR ''/'' \<Longrightarrow> path_split (jpg_of to i) = (to, py_str i @ ''.jpg'')"
  unfolding jpg_of_def by (rule path_split_entry) (simp_all add: py_str_no_slash)

lemma jpg_of_not_dir: "jpg_of to i \<noteq> to"
  by (simp add: jpg_of_def)

section \<open>Writing a file\<close>

lemma open_w_frame:
  "open_w d path text = Inr d' \<Longrightarrow> p \<noteq> path \<Longrightarrow> \<not> isdir d p \<Longrightarrow> d' p = d p"
  by (auto simp: open_w_def isdir_def split: option.splits node.splits prod.splits)

lemma open_w_written: "open_w d path text = Inr d' \<Longrightarrow> d' path = Some (File text)"
  by (auto simp: open_w_def split: option.splits node.splits prod.splits)

lemma open_w_file:
  "d path = Some (File old) \<Longrightarrow> open_w d path text = Inr (d(path \<mapsto> File text))"
  by (simp add: open_w_def)

lemma open_w_new:
  "d path = None \<Longrightarrow> path_split path = (parent, name) \<Longrightarrow> d parent = Some (Dir names) \<Longrightarrow>
   open_w d path text = Inr (d(parent \<mapsto> Dir (names @ [name]), path \<mapsto> File text))"
  by (simp add: open_w_def)

lemma open_w_cases:
  assumes "open_w d path text = Inr d'"
  obtains (overwritten) old where "d path = Some (File old)" and "d' = d(path \<mapsto> File text)"
  | (created) names where "d path = None" and "d (fst (path_split path)) = Some (Dir names)"
      and "d' = d(fst (path_split path) \<mapsto> Dir (names @ [snd (path_split path)]), path \<mapsto> File text)"
  using assms by (auto simp: open_w_def split: option.splits node.splits prod.splits)

lemma open_w_dir:
  assumes "open_w d path text = Inr d'" and "d p = Some (Dir names)"
  shows "\<exists>names'. d' p = Some (Dir names') \<and> set names \<subseteq> set names'"
  using assms(1)
proof (cases rule: open_w_cases)
  case (overwritten old)
  with assms(2) show ?thesis by auto
next
  case (created ns)
  with assms(2) show ?thesis by auto
qed

lemma open_w_frame_parent:
  "open_w d path text = Inr d' \<Longrightarrow> p \<noteq> path \<Longrightarrow> p \<noteq> fst (path_split path) \<Longrightarrow> d' p = d p"
  by (auto simp: open_w_def split: option.splits node.splits prod.splits)


section \<open>The dataset seeder\<close>

subsection \<open>One fetch\<close>

lemma subprocess_run_curl:
  "curl_installed w \<Longrightarrow>
   subprocess_run (curl_argv to i) w
     = Inr (curl (url_of i) (jpg_of to i) (w\<lparr>spawned := spawned w @ [curl_argv to i]\<rparr>))"
  by (simp add: subprocess_run_def curl_argv_def)

lemma curl_state:
  "curl url out w = (status, w') \<Longrightarrow>
   spawned w' = spawned w \<and> network w' = network w \<and> curl_installed w' = curl_installed w \<and>
   stdout w' = stdout w"
  by (auto simp: curl_def split: option.splits sum.splits)

lemma curl_disk:
  assumes "curl url out w = (status, w')"
  shows "disk w' = disk w \<or> (\<exists>body. network w url = Some body \<and> open_w (disk w) out body = Inr (disk w'))"
  using assms by (auto simp: curl_def split: option.splits sum.splits)

lemma curl_failed: "network w url = None \<Longrightarrow> curl url out w = (7, w)"
  by (simp add: curl_def)

text \<open>One round of the loop, seen from the caller.\<close>

lemma fetch_step:
  assumes "curl_installed w"
  obtains status w' where "subprocess_run (curl_argv to i) w = Inr (status, w')"
    and "spawned w' = spawned w @ [curl_argv to i]"
    and "network w' = network w" and "curl_installed w'"
    and "disk w' = disk w \<or>
         (\<exists>body. network w (url_of i) = Some body \<and>
                 open_w (disk w) (jpg_of to i) body = Inr (disk w'))"
    and "network w (url_of i) = None \<Longrightarrow> disk w' = disk w"
    and "\<And>body d'. network w (url_of i) = Some body \<Longrightarrow>
           open_w (disk w) (jpg_of to i) body = Inr d' \<Longrightarrow> disk w' = d'"
proof -
  let ?w = "w\<lparr>spawned := spawned w @ [curl_argv to i]\<rparr>"
  obtain status w' where c: "curl (url_of i) (jpg_of to i) ?w = (status, w')"
    by (cases "curl (url_of i) (jpg_of to i) ?w")
  show thesis
  proof (rule that [of status w'])
    show "subprocess_run (curl_argv to i) w = Inr (status, w')"
      using assms c by (simp add: subprocess_run_curl)
    show "spawned w' = spawned w @ [curl_argv to i]" "network w' = network w" "curl_installed w'"
      using curl_state [OF c] assms by simp_all
    show "disk w' = disk w \<or>
         (\<exists>body. network w (url_of i) = Some body \<and>
                 open_w (disk w) (jpg_of to i) body = Inr (disk w'))"
      using curl_disk [OF c] by simp
    show "network w (url_of i) = None \<Longrightarrow> disk w' = disk w"
      using c by (auto simp: curl_failed)
    show "\<And>body d'. network w (url_of i) = Some body \<Longrightarrow>
           open_w (disk w) (jpg_of to i) body = Inr d' \<Longrightarrow> disk w' = d'"
      using c by (auto simp: curl_def)
  qed
qed

subsection \<open>The loop\<close>

lemma download_loop_runs:
  "curl_installed w \<Longrightarrow>
   \<exists>w'. download_loop to is w = Inr w' \<and> spawned w' = spawned w @ map (curl_argv to) is \<and>
        network w' = network w \<and> curl_installed w'"
proof (induction "is" arbitrary: w)
  case Nil
  then show ?case by simp
next
  case (Cons i "is")
  from Cons.prems obtain status w1
    where "subprocess_run (curl_argv to i) w = Inr (status, w1)"
      and "spawned w1 = spawned w @ [curl_argv to i]"
      and "network w1 = network w" and "curl_installed w1"
    by (rule fetch_step)
  with Cons.IH [of w1] show ?case by auto
qed

lemma fetch_step_dir:
  assumes "subprocess_run (curl_argv to i) w = Inr (status, w1)" and "curl_installed w"
    and "disk w p = Some (Dir names)"
  shows "\<exists>names'. disk w1 p = Some (Dir names') \<and> set names \<subseteq> set names'"
proof -
  from assms(2) obtain status' w1'
    where r: "subprocess_run (curl_argv to i) w = Inr (status', w1')"
      and d: "disk w1' = disk w \<or>
         (\<exists>body. network w (url_of i) = Some body \<and>
                 open_w (disk w) (jpg_of to i) body = Inr (disk w1'))"
    by (rule fetch_step)
  from r assms(1) have "w1' = w1" by simp
  with d assms(3) show ?thesis by (auto dest: open_w_dir)
qed

lemma fetch_step_frame:
  assumes "subprocess_run (curl_argv to i) w = Inr (status, w1)" and "curl_installed w"
    and "p \<noteq> jpg_of to i \<or> network w (url_of i) = None" and "\<not> isdir (disk w) p"
  shows "disk w1 p = disk w p"
proof -
  from assms(2) obtain status' w1'
    where r: "subprocess_run (curl_argv to i) w = Inr (status', w1')"
      and d: "disk w1' = disk w \<or>
         (\<exists>body. network w (url_of i) = Some body \<and>
                 open_w (disk w) (jpg_of to i) body = Inr (disk w1'))"
    by (rule fetch_step)
  from r assms(1) have "w1' = w1" by simp
  with d assms(3,4) show ?thesis by (auto dest: open_w_frame)
qed

lemma fetch_step_state:
  assumes "subprocess_run (curl_argv to i) w = Inr (status, w1)" and "curl_installed w"
  shows "network w1 = network w \<and> curl_installed w1"
proof -
  from assms(2) obtain status' w1'
    where r: "subprocess_run (curl_argv to i) w = Inr (status', w1')"
      and "network w1' = network w" and "curl_installed w1'"
    by (rule fetch_step)
  with assms(1) show ?thesis by simp
qed

lemma fetch_step_fetched:
  assumes "subprocess_run (curl_argv to i) w = Inr (status, w1)" and "curl_installed w"
    and "network w (url_of i) = Some body" and "open_w (disk w) (jpg_of to i) body = Inr d'"
  shows "disk w1 = d'"
  using assms by (auto simp: subprocess_run_curl curl_def)

lemma download_loop_Cons:
  assumes "download_loop to (i # is) w = Inr w'"
  obtains status w1 where "subprocess_run (curl_argv to i) w = Inr (status, w1)"
    and "download_loop to is w1 = Inr w'"
  using assms by (auto split: sum.splits)

lemma download_loop_dir:
  "download_loop to is w = Inr w' \<Longrightarrow> curl_installed w \<Longrightarrow> disk w p = Some (Dir names) \<Longrightarrow>
   \<exists>names'. disk w' p = Some (Dir names') \<and> set names \<subseteq> set names'"
proof (induction "is" arbitrary: w names)
  case Nil
  then show ?case by auto
next
  case (Cons i "is")
  from Cons.prems(1) obtain status w1
    where s: "subprocess_run (curl_argv to i) w = Inr (status, w1)"
      and l: "download_loop to is w1 = Inr w'" by (rule download_loop_Cons)
  from fetch_step_dir [OF s Cons.prems(2,3)] obtain names1
    where n1: "disk w1 p = Some (Dir names1)" and "set names \<subseteq> set names1" by blast
  moreover from fetch_step_state [OF s Cons.prems(2)] have "curl_installed w1" by simp
  from Cons.IH [OF l this n1] obtain names'
    where "disk w' p = Some (Dir names')" and "set names1 \<subseteq> set names'" by blast
  ultimately show ?case by blast
qed

text \<open>
  A path that is not a directory keeps what it holds unless it is the destination of a
  fetch that delivered a body.
\<close>

lemma download_loop_frame:
  "download_loop to is w = Inr w' \<Longrightarrow> curl_installed w \<Longrightarrow> \<not> isdir (disk w) p \<Longrightarrow>
   (\<And>i. i \<in> set is \<Longrightarrow> p = jpg_of to i \<Longrightarrow> network w (url_of i) = None) \<Longrightarrow>
   disk w' p = disk w p"
proof (induction "is" arbitrary: w)
  case Nil
  then show ?case by simp
next
  case (Cons i "is")
  from Cons.prems(1) obtain status w1
    where s: "subprocess_run (curl_argv to i) w = Inr (status, w1)"
      and l: "download_loop to is w1 = Inr w'" by (rule download_loop_Cons)
  have "p \<noteq> jpg_of to i \<or> network w (url_of i) = None"
    using Cons.prems(4) [of i] by auto
  with s Cons.prems(2,3) have same: "disk w1 p = disk w p" by (intro fetch_step_frame)
  from fetch_step_state [OF s Cons.prems(2)]
  have st: "network w1 = network w" "curl_installed w1" by simp_all
  have "disk w' p = disk w1 p"
  proof (rule Cons.IH [OF l st(2)])
    show "\<not> isdir (disk w1) p" using same Cons.prems(3) by (simp add: isdir_def)
    show "\<And>j. j \<in> set is \<Longrightarrow> p = jpg_of to j \<Longrightarrow> network w1 (url_of j) = None"
      using Cons.prems(4) st(1) by simp
  qed
  with same show ?case by simp
qed

lemma download_loop_written:
  assumes "to \<noteq> []" and "last to \<noteq> CHR ''/''"
  shows "download_loop to is w = Inr w' \<Longrightarrow> curl_installed w \<Longrightarrow> distinct is \<Longrightarrow> i \<in> set is \<Longrightarrow>
   network w (url_of i) = Some body \<Longrightarrow> isdir (disk w) to \<Longrightarrow>
   disk w (jpg_of to i) = None \<or> isfile (disk w) (jpg_of to i) \<Longrightarrow>
   disk w' (jpg_of to i) = Some (File body) \<and>
   (\<exists>names'. disk w' to = Some (Dir names') \<and>
      (disk w (jpg_of to i) = None \<longrightarrow> py_str i @ ''.jpg'' \<in> set names'))"
proof (induction "is" arbitrary: w)
  case Nil
  then show ?case by simp
next
  case (Cons j "is")
  from Cons.prems(1) obtain status w1
    where s: "subprocess_run (curl_argv to j) w = Inr (status, w1)"
      and l: "download_loop to is w1 = Inr w'" by (rule download_loop_Cons)
  from fetch_step_state [OF s Cons.prems(2)]
  have st: "network w1 = network w" "curl_installed w1" by simp_all
  from Cons.prems(6) obtain names where names: "disk w to = Some (Dir names)"
    by (auto simp: isdir_def split: option.splits node.splits)
  from fetch_step_dir [OF s Cons.prems(2) names] obtain names1
    where n1: "disk w1 to = Some (Dir names1)" and sub1: "set names \<subseteq> set names1" by blast
  have nodir: "\<not> isdir (disk w) (jpg_of to i)"
    using Cons.prems(7) by (auto simp: isdir_def isfile_def split: option.splits node.splits)
  show ?case
  proof (cases "j = i")
    case True
    with Cons.prems(3) have notin: "i \<notin> set is" by simp
    have "\<exists>d1. open_w (disk w) (jpg_of to i) body = Inr d1 \<and>
            (disk w (jpg_of to i) = None \<longrightarrow> d1 to = Some (Dir (names @ [py_str i @ ''.jpg''])))"
    proof (cases "disk w (jpg_of to i)")
      case None
      from open_w_new [of "disk w" "jpg_of to i" to "py_str i @ ''.jpg''" names body]
        None path_split_jpg [OF assms] names
      show ?thesis using jpg_of_not_dir [of to i] by auto
    next
      case (Some nd)
      with Cons.prems(7) obtain old where f: "disk w (jpg_of to i) = Some (File old)"
        by (auto simp: isfile_def split: node.splits)
      have "open_w (disk w) (jpg_of to i) body = Inr ((disk w)(jpg_of to i \<mapsto> File body))"
        using f by (rule open_w_file [of "disk w" "jpg_of to i" old body])
      then show ?thesis
        by (intro exI [of _ "(disk w)(jpg_of to i \<mapsto> File body)"] conjI impI)
           (simp_all add: f)
    qed
    then obtain d1 where ow: "open_w (disk w) (jpg_of to i) body = Inr d1"
      and lst: "disk w (jpg_of to i) = None \<longrightarrow> d1 to = Some (Dir (names @ [py_str i @ ''.jpg'']))"
      by (elim exE conjE)
    from s True have "subprocess_run (curl_argv to i) w = Inr (status, w1)" by simp
    then have d1: "disk w1 = d1"
      using Cons.prems(2,5) ow by (rule fetch_step_fetched)
    with ow have file1: "disk w1 (jpg_of to i) = Some (File body)" by (simp add: open_w_written)
    have "disk w' (jpg_of to i) = disk w1 (jpg_of to i)"
    proof (rule download_loop_frame [OF l st(2)])
      show "\<not> isdir (disk w1) (jpg_of to i)" using file1 by (simp add: isdir_def)
      show "\<And>k. k \<in> set is \<Longrightarrow> jpg_of to i = jpg_of to k \<Longrightarrow> network w1 (url_of k) = None"
        using notin by (auto dest: jpg_of_inj)
    qed
    with file1 have written: "disk w' (jpg_of to i) = Some (File body)" by simp
    from download_loop_dir [OF l st(2) n1] obtain names'
      where n': "disk w' to = Some (Dir names')" and sub': "set names1 \<subseteq> set names'" by blast
    have "py_str i @ ''.jpg'' \<in> set names'" if "disk w (jpg_of to i) = None"
    proof -
      from that lst have "d1 to = Some (Dir (names @ [py_str i @ ''.jpg'']))" by simp
      with n1 have "names1 = names @ [py_str i @ ''.jpg'']" unfolding d1 by simp
      then have "py_str i @ ''.jpg'' \<in> set names1" by simp
      with sub' show ?thesis by (rule subsetD)
    qed
    with written n' show ?thesis by simp
  next
    case False
    with Cons.prems(4) have i: "i \<in> set is" by simp
    have "jpg_of to i \<noteq> jpg_of to j" using False by (auto dest: jpg_of_inj)
    then have "jpg_of to i \<noteq> jpg_of to j \<or> network w (url_of j) = None" by simp
    with s Cons.prems(2) have same: "disk w1 (jpg_of to i) = disk w (jpg_of to i)"
      using nodir by (rule fetch_step_frame)
    have "disk w' (jpg_of to i) = Some (File body) \<and>
      (\<exists>names'. disk w' to = Some (Dir names') \<and>
        (disk w1 (jpg_of to i) = None \<longrightarrow> py_str i @ ''.jpg'' \<in> set names'))"
    proof (rule Cons.IH [OF l st(2) _ i])
      show "distinct is" using Cons.prems(3) by simp
      show "network w1 (url_of i) = Some body" using st(1) Cons.prems(5) by simp
      show "isdir (disk w1) to" using n1 by (simp add: isdir_def)
      show "disk w1 (jpg_of to i) = None \<or> isfile (disk w1) (jpg_of to i)"
        using same Cons.prems(7) by (simp add: isfile_def)
    qed
    with same show ?thesis by simp
  qed
qed

lemma fetch_step_frame_parent:
  assumes "subprocess_run (curl_argv to i) w = Inr (status, w1)" and "curl_installed w"
    and "to \<noteq> []" and "last to \<noteq> CHR ''/''" and "p \<noteq> jpg_of to i" and "p \<noteq> to"
  shows "disk w1 p = disk w p"
proof -
  from assms(2) obtain status' w1'
    where r: "subprocess_run (curl_argv to i) w = Inr (status', w1')"
      and d: "disk w1' = disk w \<or>
         (\<exists>body. network w (url_of i) = Some body \<and>
                 open_w (disk w) (jpg_of to i) body = Inr (disk w1'))"
    by (rule fetch_step)
  from r assms(1) have "w1' = w1" by simp
  with d assms(5,6) path_split_jpg [OF assms(3,4), of i] show ?thesis
    by (auto dest: open_w_frame_parent)
qed

lemma download_loop_frame_parent:
  assumes "to \<noteq> []" and "last to \<noteq> CHR ''/''"
  shows "download_loop to is w = Inr w' \<Longrightarrow> curl_installed w \<Longrightarrow> p \<noteq> to \<Longrightarrow>
     p \<notin> jpg_of to ` set is \<Longrightarrow> disk w' p = disk w p"
proof (induction "is" arbitrary: w)
  case Nil
  then show ?case by simp
next
  case (Cons i "is")
  from Cons.prems(1) obtain status w1
    where s: "subprocess_run (curl_argv to i) w = Inr (status, w1)"
      and l: "download_loop to is w1 = Inr w'" by (rule download_loop_Cons)
  from Cons.prems(4) have "p \<noteq> jpg_of to i" and rest: "p \<notin> jpg_of to ` set is" by auto
  with s Cons.prems(2) assms have "disk w1 p = disk w p"
    using Cons.prems(3) by (intro fetch_step_frame_parent)
  moreover from fetch_step_state [OF s Cons.prems(2)] have "curl_installed w1" by simp
  from Cons.IH [OF l this Cons.prems(3) rest] have "disk w' p = disk w1 p" .
  ultimately show ?case by simp
qed

lemma distinct_urls: "distinct (map url_of [0 ..< n])"
  by (auto simp: distinct_map intro!: inj_onI dest: url_of_inj)


subsection \<open>The sample worlds\<close>

lemma range3: "[0 ..< 3] = [0, 1, 2::nat]"
  by (simp add: upt_rec)

lemma example_jpg_paths:
  "jpg_of ''/srv/media'' 0 = ''/srv/media/0.jpg''"
  "jpg_of ''/srv/media'' 1 = ''/srv/media/1.jpg''"
  "jpg_of ''/srv/media'' 2 = ''/srv/media/2.jpg''"
  "jpg_of ''/srv/media'' (Suc 0) = ''/srv/media/1.jpg''"
  by (simp_all add: jpg_of_def py_str.simps)

lemma example_jpg_free:
  "i < nat 3 \<Longrightarrow> example_disk (jpg_of ''/srv/media'' i) = None"
proof -
  assume "i < nat 3"
  then have "i = 0 \<or> i = 1 \<or> i = 2" by auto
  then show ?thesis using example_jpg_paths by (auto simp: example_disk_def)
qed

lemma served_installed: "curl_installed served_world"
  by (simp add: served_world_def example_world_def)

lemma served_disk: "disk served_world = example_disk"
  by (simp add: served_world_def example_world_def)


lemma example_installed: "curl_installed example_world"
  by (simp add: example_world_def)

lemma example_failed: "network example_world (url_of 1) = None"
  by (simp add: example_world_def)


text \<open>
  C4. With \<^verbatim>\<open>curl\<close> available, \<open>download_dataset\<close> called with a destination directory
  and a count spawns exactly one fetch per index below the count, in order, the fetch of
  index \<open>i\<close> asking for the resource numbered \<open>i\<close> (no two indices ask for the same one)
  with the output path \<^verbatim>\<open><to>/<i>.jpg\<close>. Where the destination is an existing directory
  and no directory stands in the way, every body that arrives is what \<^verbatim>\<open><to>/<i>.jpg\<close>
  holds afterwards, a file that did not exist before is listed in the directory, a fetch
  that delivers nothing leaves its path as it was, and no other path changes. For the
  count 3 these are \<^verbatim>\<open>0.jpg\<close>, \<^verbatim>\<open>1.jpg\<close> and \<^verbatim>\<open>2.jpg\<close>.
\<close>

theorem download_dataset_fetches_each_index:
  assumes "curl_installed w" and "to \<noteq> []" and "last to \<noteq> CHR ''/''"
    and "isdir (disk w) to"
    and "\<forall>i < nat count. disk w (jpg_of to i) = None \<or> isfile (disk w) (jpg_of to i)"
  shows "\<exists>w'. download_dataset to count w = Inr w' \<and>
           spawned w' = spawned w @ map (curl_argv to) [0 ..< nat count] \<and>
           distinct (map url_of [0 ..< nat count]) \<and>
           (\<forall>i < nat count. \<forall>body. network w (url_of i) = Some body \<longrightarrow>
              disk w' (jpg_of to i) = Some (File body)) \<and>
           (\<forall>i < nat count. network w (url_of i) = None \<longrightarrow>
              disk w' (jpg_of to i) = disk w (jpg_of to i)) \<and>
           (\<exists>names'. disk w' to = Some (Dir names') \<and>
              (\<forall>i < nat count. network w (url_of i) \<noteq> None \<and> disk w (jpg_of to i) = None \<longrightarrow>
                 py_str i @ ''.jpg'' \<in> set names')) \<and>
           (\<forall>p. p \<noteq> to \<and> p \<notin> jpg_of to ` {..< nat count} \<longrightarrow> disk w' p = disk w p)"
proof -
  let ?is = "[0 ..< nat count]"
  from download_loop_runs [OF assms(1), of to ?is] obtain w'
    where run: "download_loop to ?is w = Inr w'"
      and log: "spawned w' = spawned w @ map (curl_argv to) ?is" by blast
  from assms(4) obtain names where names: "disk w to = Some (Dir names)"
    by (auto simp: isdir_def split: option.splits node.splits)
  from download_loop_dir [OF run assms(1) names] obtain names'
    where names': "disk w' to = Some (Dir names')" by blast
  have written: "disk w' (jpg_of to i) = Some (File body) \<and>
      (disk w (jpg_of to i) = None \<longrightarrow> py_str i @ ''.jpg'' \<in> set names')"
    if "i < nat count" and "network w (url_of i) = Some body" for i body
  proof -
    from that(1) assms(5) have "disk w (jpg_of to i) = None \<or> isfile (disk w) (jpg_of to i)"
      by simp
    with download_loop_written [OF assms(2,3) run assms(1) _ _ that(2) assms(4)] that(1) names'
    show ?thesis by auto
  qed
  have unfetched: "disk w' (jpg_of to i) = disk w (jpg_of to i)"
    if "i < nat count" and "network w (url_of i) = None" for i
  proof (rule download_loop_frame [OF run assms(1)])
    from that(1) assms(5) show "\<not> isdir (disk w) (jpg_of to i)"
      by (auto simp: isdir_def isfile_def split: option.splits node.splits)
    show "\<And>j. j \<in> set ?is \<Longrightarrow> jpg_of to i = jpg_of to j \<Longrightarrow> network w (url_of j) = None"
      using that(2) by (auto dest: jpg_of_inj)
  qed
  have frame: "disk w' p = disk w p" if "p \<noteq> to" and "p \<notin> jpg_of to ` {..< nat count}" for p
    using download_loop_frame_parent [OF assms(2,3) run assms(1) that(1)] that(2)
    by (simp add: lessThan_atLeast0)
  have c1: "download_dataset to count w = Inr w'"
    using run by (simp add: download_dataset_def)
  have c3: "distinct (map url_of [0 ..< nat count])" by (rule distinct_urls)
  have c4: "\<forall>i < nat count. \<forall>body. network w (url_of i) = Some body \<longrightarrow>
              disk w' (jpg_of to i) = Some (File body)"
    using written by blast
  have c5: "\<forall>i < nat count. network w (url_of i) = None \<longrightarrow>
              disk w' (jpg_of to i) = disk w (jpg_of to i)"
    using unfetched by blast
  have "\<forall>i < nat count. network w (url_of i) \<noteq> None \<and> disk w (jpg_of to i) = None \<longrightarrow>
                 py_str i @ ''.jpg'' \<in> set names'"
    using written by auto
  with names' have c6: "\<exists>names'. disk w' to = Some (Dir names') \<and>
              (\<forall>i < nat count. network w (url_of i) \<noteq> None \<and> disk w (jpg_of to i) = None \<longrightarrow>
                 py_str i @ ''.jpg'' \<in> set names')"
    by (intro exI [of _ names'] conjI)
  have c7: "\<forall>p. p \<noteq> to \<and> p \<notin> jpg_of to ` {..< nat count} \<longrightarrow> disk w' p = disk w p"
    using frame by blast
  from c1 log c3 c4 c5 c6 c7 show ?thesis
    by (intro exI [of _ w'] conjI)
qed


theorem download_dataset_fetches_each_index_witness:
  "curl_installed served_world \<and> ''/srv/media'' \<noteq> [] \<and> last ''/srv/media'' \<noteq> CHR ''/'' \<and>
   isdir (disk served_world) ''/srv/media'' \<and>
   disk served_world (jpg_of ''/srv/media'' 0) = None \<and>
   disk served_world (jpg_of ''/srv/media'' 1) = None \<and>
   disk served_world (jpg_of ''/srv/media'' 2) = None \<and>
   (\<exists>w'. download_dataset ''/srv/media'' 3 served_world = Inr w' \<and>
      spawned w' = [curl_argv ''/srv/media'' 0, curl_argv ''/srv/media'' 1, curl_argv ''/srv/media'' 2] \<and>
      disk w' ''/srv/media/0.jpg'' = Some (File ''image of https://picsum.photos/1920/1080/?random=0'') \<and>
      disk w' ''/srv/media/1.jpg'' = Some (File ''image of https://picsum.photos/1920/1080/?random=1'') \<and>
      disk w' ''/srv/media/2.jpg'' = Some (File ''image of https://picsum.photos/1920/1080/?random=2'') \<and>
      (\<exists>names'. disk w' ''/srv/media'' = Some (Dir names') \<and>
         {''0.jpg'', ''1.jpg'', ''2.jpg''} \<subseteq> set names'))"
proof -
  have h4: "isdir (disk served_world) ''/srv/media''"
    by (simp add: served_disk example_isdir)
  have h5: "\<forall>i < nat 3. disk served_world (jpg_of ''/srv/media'' i) = None \<or>
       isfile (disk served_world) (jpg_of ''/srv/media'' i)"
    by (simp add: served_disk example_jpg_free)
  have h2: "''/srv/media'' \<noteq> []" and h3: "last ''/srv/media'' \<noteq> CHR ''/''" by simp_all
  from download_dataset_fetches_each_index [OF served_installed h2 h3 h4 h5]
  obtain w' where all: "download_dataset ''/srv/media'' 3 served_world = Inr w' \<and>
           spawned w' = spawned served_world @ map (curl_argv ''/srv/media'') [0 ..< nat 3] \<and>
           distinct (map url_of [0 ..< nat 3]) \<and>
           (\<forall>i < nat 3. \<forall>body. network served_world (url_of i) = Some body \<longrightarrow>
              disk w' (jpg_of ''/srv/media'' i) = Some (File body)) \<and>
           (\<forall>i < nat 3. network served_world (url_of i) = None \<longrightarrow>
              disk w' (jpg_of ''/srv/media'' i) = disk served_world (jpg_of ''/srv/media'' i)) \<and>
           (\<exists>names'. disk w' ''/srv/media'' = Some (Dir names') \<and>
              (\<forall>i < nat 3. network served_world (url_of i) \<noteq> None \<and>
                  disk served_world (jpg_of ''/srv/media'' i) = None \<longrightarrow>
                 py_str i @ ''.jpg'' \<in> set names')) \<and>
           (\<forall>p. p \<noteq> ''/srv/media'' \<and> p \<notin> jpg_of ''/srv/media'' ` {..< nat 3} \<longrightarrow>
              disk w' p = disk served_world p)" ..
  from all have run: "download_dataset ''/srv/media'' 3 served_world = Inr w'"
    and log: "spawned w' = spawned served_world @ map (curl_argv ''/srv/media'') [0 ..< nat 3]"
    and wr: "\<forall>i < nat 3. \<forall>body. network served_world (url_of i) = Some body \<longrightarrow>
              disk w' (jpg_of ''/srv/media'' i) = Some (File body)"
    and ex: "\<exists>names'. disk w' ''/srv/media'' = Some (Dir names') \<and>
              (\<forall>i < nat 3. network served_world (url_of i) \<noteq> None \<and>
                  disk served_world (jpg_of ''/srv/media'' i) = None \<longrightarrow>
                 py_str i @ ''.jpg'' \<in> set names')"
    by blast+
  from ex obtain names' where dir: "disk w' ''/srv/media'' = Some (Dir names')"
    and ls: "\<forall>i < nat 3. network served_world (url_of i) \<noteq> None \<and>
                disk served_world (jpg_of ''/srv/media'' i) = None \<longrightarrow>
                 py_str i @ ''.jpg'' \<in> set names'" by (elim exE conjE)
  have net: "network served_world (url_of i) = Some (''image of '' @ url_of i)" for i
    by (simp add: served_world_def)
  have "disk w' (jpg_of ''/srv/media'' i) = Some (File (''image of '' @ url_of i))"
    if "i < nat 3" for i using wr net that by blast
  from this [of 0] this [of 1] this [of 2] have files:
      "disk w' ''/srv/media/0.jpg'' = Some (File ''image of https://picsum.photos/1920/1080/?random=0'')"
      "disk w' ''/srv/media/1.jpg'' = Some (File ''image of https://picsum.photos/1920/1080/?random=1'')"
      "disk w' ''/srv/media/2.jpg'' = Some (File ''image of https://picsum.photos/1920/1080/?random=2'')"
    by (simp_all add: example_jpg_paths url_of_def py_str.simps)
  have "py_str i @ ''.jpg'' \<in> set names'" if "i < nat 3" for i
    using ls net that by (simp add: served_disk example_jpg_free)
  from this [of 0] this [of 1] this [of 2]
  have names: "{''0.jpg'', ''1.jpg'', ''2.jpg''} \<subseteq> set names'"
    by (simp add: py_str.simps)
  have log': "spawned w' = [curl_argv ''/srv/media'' 0, curl_argv ''/srv/media'' 1, curl_argv ''/srv/media'' 2]"
    using log by (simp add: range3 served_world_def example_world_def)
  from dir names have "\<exists>names'. disk w' ''/srv/media'' = Some (Dir names') \<and>
         {''0.jpg'', ''1.jpg'', ''2.jpg''} \<subseteq> set names'" by (intro exI [of _ names'] conjI)
  moreover have "disk served_world (jpg_of ''/srv/media'' 0) = None"
    and "disk served_world (jpg_of ''/srv/media'' 1) = None"
    and "disk served_world (jpg_of ''/srv/media'' 2) = None"
    by (simp_all add: served_disk example_jpg_free)
  ultimately show ?thesis
    using served_installed h2 h3 h4 run log' files
    by (intro conjI exI [of _ w'])
qed


text \<open>
  C5. The exit status of a fetch is not looked at: when the fetch of index \<open>i\<close> delivers
  nothing, \<open>download_dataset\<close> still returns normally, the fetches of all later indices
  have been spawned, each at its place, and nothing was written for \<open>i\<close>.
\<close>

theorem download_dataset_ignores_failed_fetch:
  assumes "curl_installed w" and "i < nat count" and "network w (url_of i) = None"
  shows "\<exists>w'. download_dataset to count w = Inr w' \<and>
           length (spawned w') = length (spawned w) + nat count \<and>
           (\<forall>j. i < j \<and> j < nat count \<longrightarrow> spawned w' ! (length (spawned w) + j) = curl_argv to j) \<and>
           (\<not> isdir (disk w) (jpg_of to i) \<longrightarrow> disk w' (jpg_of to i) = disk w (jpg_of to i))"
proof -
  let ?is = "[0 ..< nat count]"
  from download_loop_runs [OF assms(1), of to ?is] obtain w'
    where run: "download_loop to ?is w = Inr w'"
      and log: "spawned w' = spawned w @ map (curl_argv to) ?is" by blast
  have "disk w' (jpg_of to i) = disk w (jpg_of to i)" if "\<not> isdir (disk w) (jpg_of to i)"
  proof (rule download_loop_frame [OF run assms(1) that])
    show "\<And>j. j \<in> set ?is \<Longrightarrow> jpg_of to i = jpg_of to j \<Longrightarrow> network w (url_of j) = None"
      using assms(3) by (auto dest: jpg_of_inj)
  qed
  moreover have "spawned w' ! (length (spawned w) + j) = curl_argv to j" if "j < nat count" for j
    using that log by (simp add: nth_append)
  moreover have "length (spawned w') = length (spawned w) + nat count"
    using log by simp
  ultimately show ?thesis
    unfolding download_dataset_def using run by (intro exI [of _ w']) simp
qed

theorem download_dataset_ignores_failed_fetch_witness:
  "curl_installed example_world \<and> (1::nat) < nat 3 \<and> network example_world (url_of 1) = None \<and>
   (\<exists>w'. download_dataset ''/srv/media'' 3 example_world = Inr w' \<and>
      length (spawned w') = length (spawned example_world) + nat 3 \<and>
      spawned w' ! (length (spawned example_world) + 2) = curl_argv ''/srv/media'' 2 \<and>
      disk w' (jpg_of ''/srv/media'' 1) = disk example_world (jpg_of ''/srv/media'' 1))"
proof -
  have lt: "(1::nat) < nat 3" by simp
  have nd: "\<not> isdir (disk example_world) (jpg_of ''/srv/media'' 1)"
    using example_jpg_free [of 1] by (simp add: isdir_def example_world_def)
  from download_dataset_ignores_failed_fetch [OF example_installed lt example_failed, of "''/srv/media''"]
  obtain w' where all: "download_dataset ''/srv/media'' 3 example_world = Inr w' \<and>
           length (spawned w') = length (spawned example_world) + nat 3 \<and>
           (\<forall>j. 1 < j \<and> j < nat 3 \<longrightarrow>
              spawned w' ! (length (spawned example_world) + j) = curl_argv ''/srv/media'' j) \<and>
           (\<not> isdir (disk example_world) (jpg_of ''/srv/media'' 1) \<longrightarrow>
              disk w' (jpg_of ''/srv/media'' 1) = disk example_world (jpg_of ''/srv/media'' 1))" ..
  then have "download_dataset ''/srv/media'' 3 example_world = Inr w'"
    and "length (spawned w') = length (spawned example_world) + nat 3"
    and "(1::nat) < 2 \<and> 2 < nat 3 \<longrightarrow>
           spawned w' ! (length (spawned example_world) + 2) = curl_argv ''/srv/media'' 2"
    and "disk w' (jpg_of ''/srv/media'' 1) = disk example_world (jpg_of ''/srv/media'' 1)"
    using nd by blast+
  then have "download_dataset ''/srv/media'' 3 example_world = Inr w'"
    and "length (spawned w') = length (spawned example_world) + nat 3"
    and "spawned w' ! (length (spawned example_world) + 2) = curl_argv ''/srv/media'' 2"
    and "disk w' (jpg_of ''/srv/media'' 1) = disk example_world (jpg_of ''/srv/media'' 1)"
    by simp_all
  with example_installed lt example_failed show ?thesis
    by (intro conjI exI [of _ w'])
qed

section \<open>The main block\<close>



lemma run_runs:
  assumes "arg_media_dir a = Some given"
    and "ensure_media_dir (abspath e given) w = Inr w1"
    and "seed (abspath e given) (arg_init_dataset a) w1 = Inr w2"
    and "get_paths depth (disk w2) (abspath e given) = Some (Inr paths)"
  shows "run depth e a w = Some (compose_page e (abspath e given) (arg_prefix a) paths w2)"
  using assms by (simp add: run_def)






section \<open>The page composer\<close>


lemma compile_template_succeeds:
  assumes "compile_template e src output data w = Inr w'"
  obtains template page where "disk w (path_join ''.'' src) = Some (File template)"
    and "render e template data = Inr page"
    and "open_w (disk w) output page = Inr (disk w')"
    and "w' = w\<lparr>disk := disk w'\<rparr>"
  using assms unfolding compile_template_def
  by (auto split: option.splits node.splits sum.splits)


lemma template_path: "path_join ''.'' ''template.html'' = ''./template.html''"
  by (simp add: path_join_def)

lemma compose_page_succeeds:
  assumes "compose_page e media_dir prefix paths w = Inr w'"
  obtains template page where "disk w ''./template.html'' = Some (File template)"
    and "render e template [(''pictures'', make_pictures media_dir prefix paths)] = Inr page"
    and "open_w (disk w) (path_join media_dir ''index.html'') page = Inr (disk w')"
    and "w' = w\<lparr>disk := disk w'\<rparr>"
proof -
  from assms have "compile_template e ''template.html'' (path_join media_dir ''index.html'')
      [(''pictures'', make_pictures media_dir prefix paths)] w = Inr w'"
    by (simp add: compose_page_def)
  then show thesis
    by (rule compile_template_succeeds) (rule that, simp_all add: template_path)
qed


lemma example_compose:
  "compose_page example_env ''/srv/media'' '''' [''/srv/media/a.jpg'', ''/srv/media/sub/b.jpg'']
     example_world = Inr example_after"
  using example_compile
  by (simp add: compose_page_def make_pictures_def path_join_def example_after_def)





section \<open>The page found by the next run\<close>

lemma for_loop_result:
  "for_loop rec d root files out = Some (Inr r) \<Longrightarrow>
   \<exists>subs. list_all2 (entry_paths rec d root) files subs \<and> r = out @ concat subs"
proof (induction files arbitrary: out)
  case Nil
  then show ?case by simp
next
  case (Cons f files)
  let ?fp = "path_join root f"
  show ?case
  proof (cases "isfile d ?fp")
    case True
    with Cons.prems have "for_loop rec d root files (out @ [?fp]) = Some (Inr r)" by simp
    from Cons.IH [OF this] obtain subs
      where "list_all2 (entry_paths rec d root) files subs" and "r = (out @ [?fp]) @ concat subs"
      by blast
    with True have "list_all2 (entry_paths rec d root) (f # files) ([?fp] # subs) \<and>
        r = out @ concat ([?fp] # subs)" by (simp add: entry_paths_def)
    then show ?thesis by blast
  next
    case False
    with Cons.prems obtain sub where sub: "rec ?fp = Some (Inr sub)"
      and "for_loop rec d root files (out @ sub) = Some (Inr r)"
      by (auto split: option.splits sum.splits)
    from Cons.IH [OF this(2)] obtain subs
      where "list_all2 (entry_paths rec d root) files subs" and "r = (out @ sub) @ concat subs"
      by blast
    with False sub have "list_all2 (entry_paths rec d root) (f # files) (sub # subs) \<and>
        r = out @ concat (sub # subs)" by (simp add: entry_paths_def)
    then show ?thesis by blast
  qed
qed

lemma for_loop_file_collected:
  assumes "for_loop rec d root files out = Some (Inr r)" and "f \<in> set files"
    and "isfile d (path_join root f)"
  shows "path_join root f \<in> set r"
proof -
  from for_loop_result [OF assms(1)] obtain subs
    where l: "list_all2 (entry_paths rec d root) files subs" and r: "r = out @ concat subs"
    by blast
  from assms(2) obtain i where i: "i < length files" and f: "files ! i = f"
    by (auto simp: in_set_conv_nth)
  with l have e: "entry_paths rec d root f (subs ! i)" and len: "i < length subs"
    by (auto simp: list_all2_conv_all_nth)
  from len have "subs ! i \<in> set subs" by (rule nth_mem)
  moreover from e assms(3) have "subs ! i = [path_join root f]"
    by (simp add: entry_paths_def)
  ultimately have "[path_join root f] \<in> set subs" by simp
  then have "path_join root f \<in> set (concat subs)"
    by (simp add: bexI [of _ "[path_join root f]"])
  with r show ?thesis by simp
qed

lemma for_loop_descended:
  assumes "for_loop rec d root files out = Some (Inr r)" and "f \<in> set files"
    and "\<not> isfile d (path_join root f)"
  shows "\<exists>sub. rec (path_join root f) = Some (Inr sub)"
proof -
  from for_loop_result [OF assms(1)] obtain subs
    where l: "list_all2 (entry_paths rec d root) files subs" by blast
  from assms(2) obtain i where i: "i < length files" and f: "files ! i = f"
    by (auto simp: in_set_conv_nth)
  with l have "entry_paths rec d root f (subs ! i)"
    by (auto simp: list_all2_conv_all_nth)
  with assms(3) show ?thesis by (auto simp: entry_paths_def)
qed

lemma get_paths_listing:
  assumes "get_paths depth d p = Some (Inr r)"
  obtains k names where "depth = Suc k" and "d p = Some (Dir names)"
    and "for_loop (get_paths k d) d p names [] = Some (Inr r)"
proof (cases depth)
  case 0
  with assms show ?thesis by simp
next
  case (Suc k)
  with assms obtain names where "listdir d p = Inr names"
    and "for_loop (get_paths k d) d p names [] = Some (Inr r)"
    by (auto split: sum.splits)
  moreover from this(1) have "d p = Some (Dir names)"
    by (auto simp: listdir_def split: option.splits node.splits)
  ultimately show ?thesis using Suc by (intro that)
qed

lemma for_loop_append:
  "for_loop rec d root (xs @ ys) out =
     (case for_loop rec d root xs out of
        Some (Inr collected) \<Rightarrow> for_loop rec d root ys collected
      | other \<Rightarrow> other)"
  by (induction xs arbitrary: out) (auto simp: Let_def split: option.splits sum.splits)

lemma for_loop_cong:
  assumes "\<And>f. f \<in> set files \<Longrightarrow> isfile d' (path_join root f) = isfile d (path_join root f)"
    and "\<And>f. f \<in> set files \<Longrightarrow> \<not> isfile d (path_join root f) \<Longrightarrow>
            rec' (path_join root f) = rec (path_join root f)"
  shows "for_loop rec' d' root files out = for_loop rec d root files out"
  using assms
proof (induction files arbitrary: out)
  case Nil
  then show ?case by simp
next
  case (Cons f files)
  have i: "isfile d' (path_join root f) = isfile d (path_join root f)"
    using Cons.prems(1) [of f] by simp
  have r: "\<not> isfile d (path_join root f) \<Longrightarrow> rec' (path_join root f) = rec (path_join root f)"
    using Cons.prems(2) [of f] by simp
  have IH: "for_loop rec' d' root files out' = for_loop rec d root files out'" for out'
    using Cons.prems by (intro Cons.IH) simp_all
  show ?case
  proof (cases "isfile d (path_join root f)")
    case True
    with i IH show ?thesis by simp
  next
    case False
    with i r IH show ?thesis by (simp split: option.splits sum.splits)
  qed
qed

text \<open>
  What \<open>get_paths\<close> returns at or under an entry depends only on what the disk holds at
  and under that entry.
\<close>

lemma get_paths_frame:
  assumes agree: "\<And>q. extends m f q \<Longrightarrow> d' q = d q"
    and names: "valid_names d" and f: "valid_name f"
  shows "extends m f q \<Longrightarrow> get_paths k d' q = get_paths k d q"
proof (induction k arbitrary: q)
  case 0
  show ?case by simp
next
  case (Suc k)
  from agree [OF Suc.prems] have same: "d' q = d q" .
  then have ls: "listdir d' q = listdir d q" by (simp add: listdir_def)
  show ?case
  proof (cases "listdir d q")
    case (Inl err)
    with ls show ?thesis by simp
  next
    case (Inr entries)
    then have dir: "d q = Some (Dir entries)"
      by (auto simp: listdir_def split: option.splits node.splits)
    have child: "extends m f (path_join q g)" if "g \<in> set entries" for g
    proof -
      from names dir that have "valid_name g" unfolding valid_names_def by blast
      with f show ?thesis using Suc.prems by (intro extends_step)
    qed
    have "for_loop (get_paths k d') d' q entries [] = for_loop (get_paths k d) d q entries []"
    proof (rule for_loop_cong)
      fix g assume g: "g \<in> set entries"
      from agree [OF child [OF g]]
      show "isfile d' (path_join q g) = isfile d (path_join q g)" by (simp add: isfile_def)
      show "get_paths k d' (path_join q g) = get_paths k d (path_join q g)"
        by (rule Suc.IH [OF child [OF g]])
    qed
    with ls Inr show ?thesis by simp
  qed
qed

lemma extends_longer:
  assumes "valid_name f" and "extends m f q"
  shows "q \<noteq> m"
proof -
  from assms(2) obtain rest where "q = path_join m f @ rest" by (auto simp: extends_def)
  with assms(1) have "q = m @ (drop (length m) (slashed m) @ f @ rest)"
    by (auto simp: path_join_valid slashed_def)
  moreover have "drop (length m) (slashed m) @ f @ rest \<noteq> []"
    using assms(1) by (simp add: valid_name_def)
  ultimately show ?thesis by (metis append_self_conv)
qed

lemma index_collected_again:
  assumes h1: "get_paths depth d m = Some (Inr paths)"
    and o: "open_w d (path_join m ''index.html'') page = Inr d'"
    and n1: "m \<noteq> []" and n2: "last m \<noteq> CHR ''/''"
    and vn: "valid_names d"
    and ls: "listed d m ''index.html''"
  shows "\<exists>names' paths'. d' m = Some (Dir names') \<and> ''index.html'' \<in> set names' \<and>
           get_paths depth d' m = Some (Inr paths') \<and> path_join m ''index.html'' \<in> set paths'"
proof -
  let ?dst = "path_join m ''index.html''"
  have v: "valid_name ''index.html''" by (simp add: valid_name_def)
  have dst: "?dst = m @ ''/'' @ ''index.html''" using n1 n2 by (simp add: path_join_def)
  have split: "path_split ?dst = (m, ''index.html'')"
    unfolding dst using n1 n2 by (rule path_split_entry) simp
  have ne: "m \<noteq> ?dst" by (simp add: dst)
  from h1 obtain k names where depth: "depth = Suc k" and dir: "d m = Some (Dir names)"
    and loop: "for_loop (get_paths k d) d m names [] = Some (Inr paths)"
    by (rule get_paths_listing)
  have written: "d' ?dst = Some (File page)" using o by (rule open_w_written)
  then have file': "isfile d' ?dst" by (simp add: isfile_def)
  have agree: "d' q = d q" if "valid_name f" and "f \<noteq> ''index.html''" and "extends m f q" for f q
  proof (rule open_w_frame_parent [OF o])
    show "q \<noteq> ?dst"
    proof
      assume "q = ?dst"
      with that(3) have "extends m f ?dst" by simp
      moreover have "extends m ''index.html'' ?dst" by (rule extends_self)
      ultimately have "f = ''index.html''" using that(1) v by (intro extends_same_name)
      with that(2) show False by contradiction
    qed
    show "q \<noteq> fst (path_split ?dst)"
      using extends_longer [OF that(1,3)] split by simp
  qed
  have same_loop: "for_loop (get_paths k d') d' m names out = for_loop (get_paths k d) d m names out"
    for out
  proof (rule for_loop_cong)
    fix f assume f: "f \<in> set names"
    with vn dir have vf: "valid_name f" unfolding valid_names_def by blast
    show "isfile d' (path_join m f) = isfile d (path_join m f)"
    proof (cases "f = ''index.html''")
      case True
      have "isfile d ?dst"
      proof (rule ccontr)
        assume "\<not> isfile d ?dst"
        with loop f True obtain sub where "get_paths k d ?dst = Some (Inr sub)"
          using for_loop_descended [of "get_paths k d" d m names "[]" paths f] by auto
        then obtain entries where "d ?dst = Some (Dir entries)" by (rule get_paths_listing)
        with o show False by (simp add: open_w_def)
      qed
      with file' True show ?thesis by simp
    next
      case False
      from agree [OF vf False extends_self] show ?thesis by (simp add: isfile_def)
    qed
    assume nf: "\<not> isfile d (path_join m f)"
    have "f \<noteq> ''index.html''"
    proof
      assume "f = ''index.html''"
      with nf loop f obtain sub where "get_paths k d ?dst = Some (Inr sub)"
        using for_loop_descended [of "get_paths k d" d m names "[]" paths f] by auto
      then obtain entries where "d ?dst = Some (Dir entries)" by (rule get_paths_listing)
      with o show False by (simp add: open_w_def)
    qed
    with vf have "\<And>q. extends m f q \<Longrightarrow> d' q = d q" by (intro agree)
    then show "get_paths k d' (path_join m f) = get_paths k d (path_join m f)"
      using vn vf extends_self by (rule get_paths_frame)
  qed
  from o show ?thesis
  proof (cases rule: open_w_cases)
    case (overwritten old)
    with ne dir have dir': "d' m = Some (Dir names)" by simp
    from overwritten(1) have isf: "isfile d ?dst" by (simp add: isfile_def)
    from ls dir overwritten(1) have listed: "''index.html'' \<in> set names"
      by (simp add: listed_def)
    from dir' same_loop [of "[]"] loop depth
    have "get_paths depth d' m = Some (Inr paths)" by (simp add: listdir_def)
    moreover from loop listed isf have "?dst \<in> set paths" by (rule for_loop_file_collected)
    ultimately show ?thesis using dir' listed by blast
  next
    case (created ns)
    with split dir have ns: "ns = names" by simp
    with created(3) split ne have dir': "d' m = Some (Dir (names @ [''index.html'']))" by simp
    have "for_loop (get_paths k d') d' m (names @ [''index.html'']) [] = Some (Inr (paths @ [?dst]))"
      using same_loop [of "[]"] loop file' by (simp add: for_loop_append)
    with dir' depth have "get_paths depth d' m = Some (Inr (paths @ [?dst]))"
      by (simp add: listdir_def)
    with dir' show ?thesis by auto
  qed
qed

lemma run_collects:
  assumes "run depth e a w0 = Some (Inr w')"
    and "arg_media_dir a = Some given"
    and "ensure_media_dir (abspath e given) w0 = Inr w1"
    and "seed (abspath e given) (arg_init_dataset a) w1 = Inr w"
  obtains paths where "get_paths depth (disk w) (abspath e given) = Some (Inr paths)"
    and "compose_page e (abspath e given) (arg_prefix a) paths w = Inr w'"
  using assms by (auto simp: run_def Let_def split: option.splits sum.splits)

lemma example_run: "run 2 example_env (example_args '''') example_world = Some (Inr example_after)"
proof -
  have "run 2 example_env (example_args '''') example_world =
      Some (compose_page example_env (abspath example_env ''media'')
              (arg_prefix (example_args '''')) [''/srv/media/a.jpg'', ''/srv/media/sub/b.jpg'']
              example_world)"
  proof (rule run_runs [where ?w1.0 = example_world and ?w2.0 = example_world])
    show "arg_media_dir (example_args '''') = Some ''media''" by (simp add: example_args_def)
    show "ensure_media_dir (abspath example_env ''media'') example_world = Inr example_world"
      by (simp add: example_abspath example_ensure)
    show "seed (abspath example_env ''media'') (arg_init_dataset (example_args '''')) example_world
            = Inr example_world"
      by (simp add: example_abspath example_args_def example_seed)
    show "get_paths 2 (disk example_world) (abspath example_env ''media'')
            = Some (Inr [''/srv/media/a.jpg'', ''/srv/media/sub/b.jpg''])"
      using example_get_paths by (simp add: example_abspath example_world_def)
  qed
  then show ?thesis by (simp add: example_abspath example_args_def example_compose)
qed

lemma example_valid_names: "valid_names example_disk"
  by (auto simp: valid_names_def example_disk_def valid_name_def split: if_splits)

lemma example_listed: "listed example_disk ''/srv/media'' ''index.html''"
  by (simp add: listed_def example_disk_def path_join_def)


text \<open>
  C10. A completed run leaves \<^verbatim>\<open>index.html\<close> as a regular file listed in the media root.
  A following run on the world it leaves, with the same media directory and without
  seeding, collects the path of that file, at the same nesting depth, and hands it to the
  composition with the other paths. The media root is a path that does not end in a
  separator; the names in the directories are such as \<^verbatim>\<open>os.listdir\<close> reports, and an
  \<^verbatim>\<open>index.html\<close> that exists beforehand is listed in the media root.
\<close>

theorem index_page_feeds_next_run:
  assumes "run depth e a w0 = Some (Inr w')"
    and "arg_media_dir a = Some given"
    and "ensure_media_dir (abspath e given) w0 = Inr w1"
    and "seed (abspath e given) (arg_init_dataset a) w1 = Inr w"
    and "abspath e given \<noteq> []" and "last (abspath e given) \<noteq> CHR ''/''"
    and "valid_names (disk w)" and "listed (disk w) (abspath e given) ''index.html''"
    and "arg_media_dir a2 = Some given" and "arg_init_dataset a2 \<le> 0"
  shows "isfile (disk w') (path_join (abspath e given) ''index.html'') \<and>
         (\<exists>names'. disk w' (abspath e given) = Some (Dir names') \<and> ''index.html'' \<in> set names') \<and>
         (\<exists>paths'. get_paths depth (disk w') (abspath e given) = Some (Inr paths') \<and>
                   path_join (abspath e given) ''index.html'' \<in> set paths' \<and>
                   run depth e a2 w' =
                     Some (compose_page e (abspath e given) (arg_prefix a2) paths' w'))"
proof -
  let ?m = "abspath e given"
  let ?dst = "path_join ?m ''index.html''"
  from assms(1-4) obtain paths where collected: "get_paths depth (disk w) ?m = Some (Inr paths)"
    and composed: "compose_page e ?m (arg_prefix a) paths w = Inr w'"
    by (rule run_collects)
  from composed obtain page where o: "open_w (disk w) ?dst page = Inr (disk w')"
    by (rule compose_page_succeeds)
  from o have "disk w' ?dst = Some (File page)" by (rule open_w_written)
  then have isf: "isfile (disk w') ?dst" by (simp add: isfile_def)
  from index_collected_again [OF collected o assms(5-8)] obtain names' paths'
    where dir: "disk w' ?m = Some (Dir names')" and listed: "''index.html'' \<in> set names'"
      and again: "get_paths depth (disk w') ?m = Some (Inr paths')"
      and found: "?dst \<in> set paths'" by blast
  have "run depth e a2 w' = Some (compose_page e ?m (arg_prefix a2) paths' w')"
  proof (rule run_runs [OF assms(9) _ _ again])
    show "ensure_media_dir ?m w' = Inr w'"
      using dir by (simp add: ensure_media_dir_def exists_def)
    show "seed ?m (arg_init_dataset a2) w' = Inr w'"
      using assms(10) by (simp add: seed_def)
  qed
  with isf dir listed again found show ?thesis by blast
qed

theorem index_page_feeds_next_run_witness:
  "run 2 example_env (example_args '''') example_world = Some (Inr example_after) \<and>
   arg_media_dir (example_args '''') = Some ''media'' \<and>
   ensure_media_dir (abspath example_env ''media'') example_world = Inr example_world \<and>
   seed (abspath example_env ''media'') (arg_init_dataset (example_args '''')) example_world
     = Inr example_world \<and>
   abspath example_env ''media'' \<noteq> [] \<and> last (abspath example_env ''media'') \<noteq> CHR ''/'' \<and>
   valid_names (disk example_world) \<and>
   listed (disk example_world) (abspath example_env ''media'') ''index.html'' \<and>
   arg_media_dir (example_args ''X'') = Some ''media'' \<and>
   arg_init_dataset (example_args ''X'') \<le> 0 \<and>
   isfile (disk example_after) (path_join (abspath example_env ''media'') ''index.html'') \<and>
   (\<exists>names'. disk example_after (abspath example_env ''media'') = Some (Dir names') \<and>
      ''index.html'' \<in> set names') \<and>
   (\<exists>paths'. get_paths 2 (disk example_after) (abspath example_env ''media'') = Some (Inr paths') \<and>
      path_join (abspath example_env ''media'') ''index.html'' \<in> set paths' \<and>
      run 2 example_env (example_args ''X'') example_after =
        Some (compose_page example_env (abspath example_env ''media'')
                (arg_prefix (example_args ''X'')) paths' example_after))"
proof -
  have h2: "arg_media_dir (example_args '''') = Some ''media''"
    and h9: "arg_media_dir (example_args ''X'') = Some ''media''"
    and h10: "arg_init_dataset (example_args ''X'') \<le> 0"
    by (simp_all add: example_args_def)
  have h3: "ensure_media_dir (abspath example_env ''media'') example_world = Inr example_world"
    by (simp add: example_abspath example_ensure)
  have h4: "seed (abspath example_env ''media'') (arg_init_dataset (example_args '''')) example_world
     = Inr example_world"
    by (simp add: example_abspath example_args_def example_seed)
  have h5: "abspath example_env ''media'' \<noteq> []"
    and h6: "last (abspath example_env ''media'') \<noteq> CHR ''/''"
    by (simp_all add: example_abspath)
  have h7: "valid_names (disk example_world)"
    by (simp add: example_world_def example_valid_names)
  have h8: "listed (disk example_world) (abspath example_env ''media'') ''index.html''"
    by (simp add: example_world_def example_abspath example_listed)
  from index_page_feeds_next_run [OF example_run h2 h3 h4 h5 h6 h7 h8 h9 h10]
    example_run h2 h3 h4 h5 h6 h7 h8 h9 h10
  show ?thesis by (intro conjI) simp_all
qed

end
